theory Spec2Isabelle
  imports Main "HOL-Library.Sublist"
begin

section \<open>Names, characters and the library string functions\<close>

text \<open>
  A name is a Python \<open>str\<close>; it is modelled as a \<open>string\<close>, one \<open>char\<close> per code
  point. The code looks only at ASCII characters (the forbidden class, space, dot, the
  letters and digits of the device names); every other code point is passed through
  unchanged, and none of the letters of the device names has a non-ASCII case variant
  under \<open>re.IGNORECASE\<close>.
\<close>

text \<open>The character class \<^verbatim>\<open>[<>:"/\\|?*\x00-\x1f]\<close> of \<open>forbidden_chars\<close> (line 17).\<close>

definition forbidden_chars :: "char \<Rightarrow> bool" where
  "forbidden_chars c =
     (c \<in> set [CHR ''<'', CHR ''>'', CHR '':'', CHR 0x22, CHR ''/'', CHR 0x5C,
                CHR ''|'', CHR ''?'', CHR ''*'']
      \<or> (of_char c :: nat) < 32)"

text \<open>\<open>re.search(forbidden_chars, name)\<close> as a truth value.\<close>

definition re_search_forbidden :: "string \<Rightarrow> bool" where
  "re_search_forbidden name = list_ex forbidden_chars name"

text \<open>\<open>re.sub(forbidden_chars, '_', new_name)\<close>: the scan replaces each match of the
  one-character class and copies everything else.\<close>

fun re_sub_forbidden :: "string \<Rightarrow> string" where
  "re_sub_forbidden [] = []"
| "re_sub_forbidden (c # cs) =
     (if forbidden_chars c then CHR ''_'' # re_sub_forbidden cs else c # re_sub_forbidden cs)"

text \<open>\<open>s.strip(' .')\<close>: spaces and dots are removed from both ends.\<close>

definition space_or_dot :: "char \<Rightarrow> bool" where
  "space_or_dot c = (c = CHR '' '' \<or> c = CHR ''.'')"

definition strip_sd :: "string \<Rightarrow> string" where
  "strip_sd s = rev (dropWhile space_or_dot (rev (dropWhile space_or_dot s)))"

text \<open>
  The pattern \<^verbatim>\<open>^(CON|PRN|AUX|NUL|COM[1-9]|LPT[1-9])(\..*)?$\<close> under \<open>re.IGNORECASE\<close>
  (lines 58-59). \<open>match_device\<close> is the alternation: it returns what follows the device
  name. \<open>tail_ok\<close> is \<^verbatim>\<open>(\..*)?$\<close>: the dot of \<^verbatim>\<open>.*\<close> does not match a newline, and
  \<^verbatim>\<open>$\<close> matches at the end of the string or just before a newline that ends it.
\<close>

definition upper_ascii :: "char \<Rightarrow> char" where
  "upper_ascii c =
     (case map_of (zip ''abcdefghijklmnopqrstuvwxyz'' ''ABCDEFGHIJKLMNOPQRSTUVWXYZ'') c of
        Some u \<Rightarrow> u | None \<Rightarrow> c)"

definition match_device :: "string \<Rightarrow> string option" where
  "match_device s =
     (if 3 \<le> length s \<and> map upper_ascii (take 3 s) \<in> set [''CON'', ''PRN'', ''AUX'', ''NUL'']
      then Some (drop 3 s)
      else if 4 \<le> length s \<and> map upper_ascii (take 3 s) \<in> set [''COM'', ''LPT'']
              \<and> s ! 3 \<in> set ''123456789''
      then Some (drop 4 s)
      else None)"

definition chomp :: "string \<Rightarrow> string" where
  "chomp r = (if r \<noteq> [] \<and> last r = CHR 0x0A then butlast r else r)"

definition tail_ok :: "string \<Rightarrow> bool" where
  "tail_ok r = (chomp r = [] \<or> (hd (chomp r) = CHR ''.'' \<and> CHR 0x0A \<notin> set (tl (chomp r))))"

definition re_match_reserved :: "string \<Rightarrow> bool" where
  "re_match_reserved name = (case match_device name of None \<Rightarrow> False | Some r \<Rightarrow> tail_ok r)"

text \<open>
  \<open>os.path.splitext\<close> (POSIX): the extension starts at the last dot of the last path
  component, unless that dot belongs to the component's leading dots.
\<close>

definition splitext :: "string \<Rightarrow> string \<times> string" where
  "splitext p =
     (let fname = rev (takeWhile (\<lambda>c. c \<noteq> CHR ''/'') (rev p));
          e = rev (takeWhile (\<lambda>c. c \<noteq> CHR ''.'') (rev fname))
      in if CHR ''.'' \<in> set (dropWhile (\<lambda>c. c = CHR ''.'') fname)
         then (take (length p - Suc (length e)) p, drop (length p - Suc (length e)) p)
         else (p, []))"

text \<open>\<open>os.path.join\<close> of two parts and \<open>os.path.basename\<close> (POSIX).\<close>

definition os_path_join :: "string \<Rightarrow> string \<Rightarrow> string" where
  "os_path_join a b =
     (if b \<noteq> [] \<and> hd b = CHR ''/'' then b
      else if a = [] \<or> last a = CHR ''/'' then a @ b
      else a @ ''/'' @ b)"

definition os_path_basename :: "string \<Rightarrow> string" where
  "os_path_basename p = rev (takeWhile (\<lambda>c. c \<noteq> CHR ''/'') (rev p))"

text \<open>The slice \<open>s[:k]\<close>; a negative \<open>k\<close> counts from the end.\<close>

definition py_prefix :: "string \<Rightarrow> int \<Rightarrow> string" where
  "py_prefix s k = (if 0 \<le> k then take (nat k) s else take (nat (int (length s) + k)) s)"

text \<open>\<open>str(counter)\<close> for a counter that only counts up from 1.\<close>

fun str_nat :: "nat \<Rightarrow> string" where
  "str_nat n =
     (if n < 10 then [char_of (48 + n)]
      else str_nat (n div 10) @ [char_of (48 + n mod 10)])"

declare str_nat.simps [simp del]

section \<open>The name sanitizer (lines 51-85)\<close>

definition has_invalid :: "string \<Rightarrow> bool" where
  "has_invalid name = re_search_forbidden name"

definition has_trailing :: "string \<Rightarrow> bool" where
  "has_trailing name = (strip_sd name \<noteq> name)"

definition is_reserved :: "string \<Rightarrow> bool" where
  "is_reserved name = re_match_reserved name"

text \<open>Lines 81-85: the length is enforced again after the corrections.\<close>

definition truncate_name :: "int \<Rightarrow> string \<Rightarrow> string" where
  "truncate_name max_length new_name =
     (if int (length new_name) > max_length
      then (let (base, ext) = splitext new_name;
                truncate_length = max_length - int (length ext)
            in py_prefix base truncate_length @ ext)
      else new_name)"

text \<open>Lines 63-85, the body of \<open>if has_invalid or has_trailing or is_reserved\<close>.\<close>

definition corrected_name :: "int \<Rightarrow> string \<Rightarrow> string" where
  "corrected_name max_length name =
     (let n1 = (if has_invalid name then re_sub_forbidden name else name);
          n2 = (if has_trailing name
                then (if strip_sd n1 = [] then ''unnamed'' else strip_sd n1)
                else n1);
          n3 = (if is_reserved name then CHR ''_'' # n2 else n2)
      in truncate_name max_length n3)"

text \<open>The sanitizer's \<open>newName\<close>: the corrected name when a detection fires, the name
  itself otherwise.\<close>

definition sanitize :: "int \<Rightarrow> string \<Rightarrow> string" where
  "sanitize max_length name =
     (if has_invalid name \<or> has_trailing name \<or> is_reserved name
      then corrected_name max_length name
      else name)"

section \<open>Collision handling (lines 89-95)\<close>

text \<open>
  \<open>existing\<close> lists the names present in the directory \<open>root\<close> when the loop runs:
  \<open>os.path.exists(os.path.join(root, new_name))\<close> holds exactly for them. The extension
  \<open>ext\<close> is computed once, before the loop; the base is taken again from the current
  \<open>new_name\<close> in every round.
\<close>

lemma str_nat_bound: "n < 10 ^ length (str_nat n)"
proof (induction n rule: str_nat.induct)
  case (1 n)
  show ?case
  proof (cases "n < 10")
    case True
    then show ?thesis by (simp add: str_nat.simps [of n])
  next
    case False
    with 1 have "n div 10 < 10 ^ length (str_nat (n div 10))" by simp
    then have "n < 10 * 10 ^ length (str_nat (n div 10))" by linarith
    with False show ?thesis by (simp add: str_nat.simps [of n])
  qed
qed

function collision_loop :: "string list \<Rightarrow> string \<Rightarrow> nat \<Rightarrow> string \<Rightarrow> string" where
  "collision_loop existing ext counter new_name =
     (if new_name \<in> set existing
      then collision_loop existing ext (Suc counter)
             (fst (splitext new_name) @ ''_'' @ str_nat counter @ ext)
      else new_name)"
  by pat_completeness auto

termination
proof (relation "measures
    [\<lambda>(existing, ext, counter, new_name).
        if 0 < counter \<and> suffix (str_nat (counter - 1) @ ext) new_name then 0 else 1,
     \<lambda>(existing, ext, counter, new_name).
        10 ^ sum_list (map length existing) + 1 - counter]", goal_cases)
  case 1
  show ?case by simp
next
  case (2 existing ext counter new_name)
  let ?M = "sum_list (map length existing)"
  let ?next = "fst (splitext new_name) @ ''_'' @ str_nat counter @ ext"
  have "suffix (str_nat counter @ ext) ?next"
    by (metis append.assoc suffixI)
  then have new: "(if 0 < Suc counter \<and> suffix (str_nat (Suc counter - 1) @ ext) ?next
                   then 0 else 1) = (0::nat)"
    by simp
  show ?case
  proof (cases "0 < counter \<and> suffix (str_nat (counter - 1) @ ext) new_name")
    case False
    then have "(if 0 < counter \<and> suffix (str_nat (counter - 1) @ ext) new_name
                then 0 else 1) = (1::nat)"
      by (rule if_not_P)
    with new show ?thesis
      by (intro measures_less) (simp only: prod.case zero_less_one)
  next
    case True
    then have old: "(if 0 < counter \<and> suffix (str_nat (counter - 1) @ ext) new_name
                     then 0 else 1) = (0::nat)"
      by (rule if_P)
    from True have "length (str_nat (counter - 1)) \<le> length new_name"
      by (auto simp: suffix_def)
    also have "length new_name \<le> ?M"
      using 2 by (simp add: member_le_sum_list)
    finally have "(10::nat) ^ length (str_nat (counter - 1)) \<le> 10 ^ ?M"
      by (simp add: power_increasing)
    with str_nat_bound [of "counter - 1"] have "counter - 1 < 10 ^ ?M" by linarith
    with True have "10 ^ ?M + 1 - Suc counter < 10 ^ ?M + 1 - counter" by linarith
    with new old show ?thesis
      by (intro measures_lesseq measures_less) (simp_all only: prod.case order_refl)
  qed
qed

declare collision_loop.simps [simp del]

section \<open>The tree walk (lines 37-132)\<close>

text \<open>
  The file system below \<open>root_dir\<close> is a tree; a directory lists its entries in the
  order \<open>os.scandir\<close> returns them. Symbolic links and directories that cannot be listed
  are left out. The entry that \<open>os.path.join(root, name)\<close> names is addressed by the
  list of its components, \<open>root @ [name]\<close>; the names of a listing are not empty, are
  not \<open>.\<close> or \<open>..\<close> and contain no separator.
\<close>

datatype node = File | Dir "(string \<times> node) list"

type_synonym path = "string list"

text \<open>The string \<open>os.walk\<close> yields as \<open>root\<close> for a directory: \<open>root_dir\<close> joined with
  the names on the way down.\<close>

definition path_str :: "path \<Rightarrow> string" where
  "path_str p = foldl os_path_join [] p"

datatype reason = InvalidCharacters | TrailingSpaceOrDot | ReservedName

text \<open>
  What a run does that can be observed: the lines it prints and the renames it performs.
  \<open>ChangeReport\<close> is the block of lines 104-120 (mode, location, original, modified,
  reasons); \<open>OsRename\<close> is a call of \<open>os.rename\<close> that returned.
\<close>

datatype event =
    TooLongWarning string
  | ChangeReport bool path string string "reason list"
  | OsRename path path
  | RenameError string

record run_state =
  change_count :: nat
  skipped_count :: nat
  error_count :: nat
  trace :: "event list"

text \<open>
  The host: the file name of the running script, and whether \<open>os.rename\<close> raises
  \<open>OSError\<close> for a given source and target (permissions, a name the host rejects).
\<close>

record host =
  script_name :: string
  rename_fails :: "path \<Rightarrow> path \<Rightarrow> bool"

fun is_dir :: "node \<Rightarrow> bool" where
  "is_dir File = False"
| "is_dir (Dir es) = True"

definition dirs :: "(string \<times> node) list \<Rightarrow> string list" where
  "dirs es = map fst (filter (\<lambda>e. is_dir (snd e)) es)"

definition files :: "(string \<times> node) list \<Rightarrow> string list" where
  "files es = map fst (filter (\<lambda>e. \<not> is_dir (snd e)) es)"

definition rename_entry :: "string \<Rightarrow> string \<Rightarrow> (string \<times> node) list \<Rightarrow> (string \<times> node) list" where
  "rename_entry old new es = map (\<lambda>e. if fst e = old then (new, snd e) else e) es"

definition reasons_of :: "string \<Rightarrow> reason list" where
  "reasons_of name =
     (if has_invalid name then [InvalidCharacters] else []) @
     (if has_trailing name then [TrailingSpaceOrDot] else []) @
     (if is_reserved name then [ReservedName] else [])"

text \<open>
  The body of \<open>for name in dirs + files\<close> (lines 39-132) for one name; \<open>entries\<close> is
  the current content of the directory \<open>root\<close>, and \<open>os.path.exists(new_path)\<close> holds
  for the names in it. \<open>os.rename\<close> is the only call of the \<open>try\<close> block that fails
  here, with \<open>OSError\<close>.
\<close>

definition process_entry ::
  "host \<Rightarrow> bool \<Rightarrow> int \<Rightarrow> path \<Rightarrow> string \<Rightarrow>
   (string \<times> node) list \<times> run_state \<Rightarrow> (string \<times> node) list \<times> run_state" where
  "process_entry h dry_run max_length root name = (\<lambda>(entries, st).
     if name = script_name h then (entries, st)
     else if int (length (os_path_basename (os_path_join (path_str root) name))) > max_length
     then (entries, st\<lparr>skipped_count := skipped_count st + 1,
                        trace := trace st @ [TooLongWarning name]\<rparr>)
     else if has_invalid name \<or> has_trailing name \<or> is_reserved name
     then (let candidate = corrected_name max_length name;
               ext = snd (splitext (os_path_join (path_str root) candidate));
               new_name = collision_loop (map fst entries) ext 1 candidate
           in if new_name = name then (entries, st)
              else (let st1 = st\<lparr>trace := trace st @
                                 [ChangeReport dry_run root name new_name (reasons_of name)]\<rparr>
                    in if dry_run then (entries, st1\<lparr>change_count := change_count st1 + 1\<rparr>)
                       else if rename_fails h (root @ [name]) (root @ [new_name])
                       then (entries, st1\<lparr>error_count := error_count st1 + 1,
                                           trace := trace st1 @ [RenameError name]\<rparr>)
                       else (rename_entry name new_name entries,
                             st1\<lparr>change_count := change_count st1 + 1,
                                 trace := trace st1 @
                                   [OsRename (root @ [name]) (root @ [new_name])]\<rparr>)))
     else (entries, st))"

definition process_names ::
  "host \<Rightarrow> bool \<Rightarrow> int \<Rightarrow> path \<Rightarrow> string list \<Rightarrow>
   (string \<times> node) list \<times> run_state \<Rightarrow> (string \<times> node) list \<times> run_state" where
  "process_names h dry_run max_length root names s =
     fold (process_entry h dry_run max_length root) names s"

text \<open>
  \<open>os.walk(root_dir, topdown=False)\<close> with the loop body run at each of its yields: a
  directory is listed, its subdirectories are walked in listing order, and then the
  names \<open>dirs + files\<close> of that listing are processed.
\<close>

fun walk :: "host \<Rightarrow> bool \<Rightarrow> int \<Rightarrow> path \<Rightarrow> node \<Rightarrow> run_state \<Rightarrow> node \<times> run_state"
  and walk_subdirs :: "host \<Rightarrow> bool \<Rightarrow> int \<Rightarrow> path \<Rightarrow> (string \<times> node) list \<Rightarrow> run_state \<Rightarrow>
                       (string \<times> node) list \<times> run_state" where
  "walk h dry_run max_length root File st = (File, st)"
| "walk h dry_run max_length root (Dir es) st =
     (let (es', st') = process_names h dry_run max_length root (dirs es @ files es)
                         (walk_subdirs h dry_run max_length root es st)
      in (Dir es', st'))"
| "walk_subdirs h dry_run max_length root [] st = ([], st)"
| "walk_subdirs h dry_run max_length root ((n, t) # es) st =
     (let (t', st1) = walk h dry_run max_length (root @ [n]) t st;
          (es', st2) = walk_subdirs h dry_run max_length root es st1
      in ((n, t') # es', st2))"

definition initial_state :: run_state where
  "initial_state = \<lparr>change_count = 0, skipped_count = 0, error_count = 0, trace = []\<rparr>"

text \<open>The function itself; \<open>None\<close> is a \<open>root_dir\<close> that does not exist (line 23), for
  which it returns before anything is counted.\<close>

definition sanitize_ntfs_names ::
  "host \<Rightarrow> path \<Rightarrow> bool \<Rightarrow> int \<Rightarrow> node option \<Rightarrow> (node \<times> run_state) option" where
  "sanitize_ntfs_names h root_dir dry_run max_length fs =
     (case fs of
        None \<Rightarrow> None
      | Some tree \<Rightarrow> Some (walk h dry_run max_length root_dir tree initial_state))"

text \<open>Two hosts for concrete runs: one on which every rename succeeds, and one that
  rejects every rename (a read-only volume).\<close>

definition posix_host :: host where
  "posix_host = \<lparr>script_name = ''ntfs-sanitizer.py'', rename_fails = (\<lambda>old new. False)\<rparr>"

definition read_only_host :: host where
  "read_only_host = \<lparr>script_name = ''ntfs-sanitizer.py'', rename_fails = (\<lambda>old new. True)\<rparr>"

section \<open>Reading a trace\<close>

text \<open>The reasons reported for each entry, with the directory and the original name,
  and the names warned about as too long; the mode and the new name are left out.\<close>

fun report_of :: "event \<Rightarrow> (path \<times> string \<times> reason list) list" where
  "report_of (ChangeReport dry_run root name new_name reasons) = [(root, name, reasons)]"
| "report_of (TooLongWarning name) = []"
| "report_of (OsRename old new) = []"
| "report_of (RenameError name) = []"

definition per_entry_reasons :: "event list \<Rightarrow> (path \<times> string \<times> reason list) list" where
  "per_entry_reasons tr = concat (map report_of tr)"

fun warning_of :: "event \<Rightarrow> string list" where
  "warning_of (TooLongWarning name) = [name]"
| "warning_of (ChangeReport dry_run root name new_name reasons) = []"
| "warning_of (OsRename old new) = []"
| "warning_of (RenameError name) = []"

definition too_long_warnings :: "event list \<Rightarrow> string list" where
  "too_long_warnings tr = concat (map warning_of tr)"

text \<open>The calls of \<open>os.rename\<close> that a trace holds.\<close>

fun rename_of :: "event \<Rightarrow> (path \<times> path) list" where
  "rename_of (OsRename old new) = [(old, new)]"
| "rename_of (ChangeReport dry_run root name new_name reasons) = []"
| "rename_of (TooLongWarning name) = []"
| "rename_of (RenameError name) = []"

definition renames_performed :: "event list \<Rightarrow> (path \<times> path) list" where
  "renames_performed tr = concat (map rename_of tr)"

text \<open>What a dry run and a live run of the same host share, entry by entry; \<open>e0\<close> is
  the error count and \<open>r0\<close> are the renames both started from.\<close>

definition agree :: "host \<Rightarrow> nat \<Rightarrow> (path \<times> path) list \<Rightarrow> run_state \<Rightarrow> run_state \<Rightarrow> bool" where
  "agree h e0 r0 dry live =
     (skipped_count dry = skipped_count live
      \<and> error_count dry = e0
      \<and> renames_performed (trace dry) = r0
      \<and> change_count dry + e0 = change_count live + error_count live
      \<and> per_entry_reasons (trace dry) = per_entry_reasons (trace live)
      \<and> too_long_warnings (trace dry) = too_long_warnings (trace live)
      \<and> ((\<exists>old new. rename_fails h old new) \<or> error_count live = e0))"

text \<open>The paths of the entries a trace reports or renames, in the order of the trace.\<close>

fun entry_of :: "event \<Rightarrow> path list" where
  "entry_of (ChangeReport dry_run root name new_name reasons) = [root @ [name]]"
| "entry_of (OsRename old new) = [old]"
| "entry_of (TooLongWarning name) = []"
| "entry_of (RenameError name) = []"

definition entries_touched :: "event list \<Rightarrow> path list" where
  "entries_touched tr = concat (map entry_of tr)"





section \<open>Facts about the string functions\<close>

lemma re_sub_forbidden_map:
  "re_sub_forbidden s = map (\<lambda>c. if forbidden_chars c then CHR ''_'' else c) s"
  by (induction s) auto

lemma sd_subst: "space_or_dot (if forbidden_chars c then CHR ''_'' else c) = space_or_dot c"
  by (auto simp: space_or_dot_def forbidden_chars_def)

lemma strip_sd_re_sub: "strip_sd (re_sub_forbidden s) = re_sub_forbidden (strip_sd s)"
  by (simp add: strip_sd_def re_sub_forbidden_map dropWhile_map rev_map comp_def sd_subst)

lemma re_sub_id: "\<not> re_search_forbidden s \<Longrightarrow> re_sub_forbidden s = s"
  by (induction s) (auto simp: re_search_forbidden_def)

lemma upper_ascii_initial:
  "upper_ascii c \<in> set ''CPANL'' \<Longrightarrow> c \<in> set ''CPANLcpanl''"
  by (auto simp: upper_ascii_def split: option.splits if_splits)

lemma match_device_hd:
  assumes "match_device s = Some r"
  shows "s \<noteq> [] \<and> hd s \<in> set ''CPANLcpanl''"
proof -
  from assms have len: "3 \<le> length s"
    by (auto simp: match_device_def split: if_splits)
  then obtain a b c t where s: "s = a # b # c # t"
    by (cases s; cases "tl s"; cases "tl (tl s)") auto
  from assms have "upper_ascii a \<in> set ''CPANL''"
    unfolding s match_device_def by (auto split: if_splits)
  then show ?thesis
    using upper_ascii_initial s by simp
qed

lemma is_reserved_hd:
  "is_reserved name \<Longrightarrow> name \<noteq> [] \<and> hd name \<in> set ''CPANLcpanl''"
  by (auto simp: is_reserved_def re_match_reserved_def split: option.splits dest: match_device_hd)

lemma dropWhile_all_iff: "(\<forall>x\<in>set (dropWhile P xs). P x) \<longleftrightarrow> (\<forall>x\<in>set xs. P x)"
proof
  assume a: "\<forall>x\<in>set (dropWhile P xs). P x"
  have "dropWhile P xs = []"
  proof (rule ccontr)
    assume n: "dropWhile P xs \<noteq> []"
    then have "\<not> P (hd (dropWhile P xs))" by (rule hd_dropWhile)
    moreover have "hd (dropWhile P xs) \<in> set (dropWhile P xs)" using n by simp
    ultimately show False using a by blast
  qed
  then show "\<forall>x\<in>set xs. P x" by (simp add: dropWhile_eq_Nil_conv)
next
  assume "\<forall>x\<in>set xs. P x"
  then show "\<forall>x\<in>set (dropWhile P xs). P x"
    using set_dropWhileD by fastforce
qed

lemma strip_sd_Nil_iff: "strip_sd s = [] \<longleftrightarrow> (\<forall>c\<in>set s. space_or_dot c)"
  by (simp add: strip_sd_def dropWhile_eq_Nil_conv dropWhile_all_iff)

lemma length_strip_sd: "length (strip_sd s) \<le> length s"
proof -
  have "length (strip_sd s) \<le> length (dropWhile space_or_dot s)"
    unfolding strip_sd_def using length_dropWhile_le [of space_or_dot "rev (dropWhile space_or_dot s)"]
    by simp
  also have "\<dots> \<le> length s" by (rule length_dropWhile_le)
  finally show ?thesis .
qed

lemma set_strip_sd: "set (strip_sd s) \<subseteq> set s"
  unfolding strip_sd_def by (auto dest!: set_dropWhileD)

lemma strip_sd_ends:
  assumes "strip_sd s \<noteq> []"
  shows "\<not> space_or_dot (hd (strip_sd s)) \<and> \<not> space_or_dot (last (strip_sd s))"
proof -
  let ?A = "dropWhile space_or_dot s"
  let ?B = "dropWhile space_or_dot (rev ?A)"
  from assms have B: "?B \<noteq> []" by (simp add: strip_sd_def)
  have A: "?A \<noteq> []"
  proof
    assume "?A = []"
    then have "?B = []" by (simp del: dropWhile_eq_Nil_conv)
    with B show False by (simp del: dropWhile_eq_Nil_conv)
  qed
  have l: "\<not> space_or_dot (hd ?B)" using B by (rule hd_dropWhile)
  have hA: "\<not> space_or_dot (hd ?A)" using A by (rule hd_dropWhile)
  obtain us where us: "rev ?A = us @ ?B"
    by (metis takeWhile_dropWhile_id)
  then have "?A = rev ?B @ rev us" by (metis rev_append rev_rev_ident)
  then have "hd ?A = hd (rev ?B)" using B by (metis hd_append2 rev_is_Nil_conv)
  with hA l show ?thesis using B by (simp add: strip_sd_def last_rev)
qed

lemma strip_sd_id_iff:
  "strip_sd s = s \<longleftrightarrow> s = [] \<or> (\<not> space_or_dot (hd s) \<and> \<not> space_or_dot (last s))"
proof (cases "s = []")
  case True
  then show ?thesis by (simp add: strip_sd_def)
next
  case False
  show ?thesis
  proof
    assume e: "strip_sd s = s"
    then show "s = [] \<or> (\<not> space_or_dot (hd s) \<and> \<not> space_or_dot (last s))"
      using strip_sd_ends [of s] False by simp
  next
    assume "s = [] \<or> (\<not> space_or_dot (hd s) \<and> \<not> space_or_dot (last s))"
    with False have h: "\<not> space_or_dot (hd s)" and l: "\<not> space_or_dot (last s)" by auto
    from h False have d: "dropWhile space_or_dot s = s" by (cases s) auto
    from l False have "dropWhile space_or_dot (rev s) = rev s"
      by (cases "rev s") (auto simp: last_rev)
    then show "strip_sd s = s" by (simp add: strip_sd_def d)
  qed
qed

lemma length_re_sub [simp]: "length (re_sub_forbidden s) = length s"
  by (simp add: re_sub_forbidden_map)

lemma re_sub_Nil_iff [simp]: "re_sub_forbidden s = [] \<longleftrightarrow> s = []"
  by (cases s) auto

lemma forbidden_not_initial: "c \<in> set ''CPANLcpanl'' \<Longrightarrow> \<not> forbidden_chars c"
  by (auto simp: forbidden_chars_def)

lemma sd_not_initial: "c \<in> set ''CPANLcpanl'' \<Longrightarrow> \<not> space_or_dot c"
  by (auto simp: space_or_dot_def)

lemma truncate_name_short: "int (length s) \<le> L \<Longrightarrow> truncate_name L s = s"
  by (simp add: truncate_name_def)

lemma corrected_name_nonempty_strip:
  assumes "strip_sd (re_sub_forbidden name) \<noteq> []"
  shows "corrected_name L name =
         truncate_name L ((if is_reserved name then ''_'' else []) @ strip_sd (re_sub_forbidden name))"
proof -
  have n1: "(if has_invalid name then re_sub_forbidden name else name) = re_sub_forbidden name"
    by (simp add: has_invalid_def re_sub_id)
  have n2: "(if has_trailing name
             then (if strip_sd (re_sub_forbidden name) = [] then ''unnamed''
                   else strip_sd (re_sub_forbidden name))
             else re_sub_forbidden name) = strip_sd (re_sub_forbidden name)"
    using assms by (auto simp: has_trailing_def strip_sd_re_sub)
  show ?thesis
    unfolding corrected_name_def Let_def n1 n2 by simp
qed

lemma strip_Nil_not_reserved:
  assumes "strip_sd name = []"
  shows "\<not> is_reserved name"
proof
  assume r: "is_reserved name"
  then have "name \<noteq> []" and h: "hd name \<in> set ''CPANLcpanl''"
    using is_reserved_hd by blast+
  then have "hd name \<in> set name" by simp
  with assms have "space_or_dot (hd name)" by (simp add: strip_sd_Nil_iff)
  with h show False using sd_not_initial by blast
qed

lemma corrected_name_empty_strip:
  assumes "strip_sd (re_sub_forbidden name) = []" and "name \<noteq> []"
  shows "has_trailing name \<and> corrected_name L name = truncate_name L ''unnamed''"
proof -
  from assms(1) have e: "strip_sd name = []" by (simp add: strip_sd_re_sub)
  with assms(2) have t: "has_trailing name" by (auto simp: has_trailing_def)
  have r: "\<not> is_reserved name" using e by (rule strip_Nil_not_reserved)
  have "strip_sd (if has_invalid name then re_sub_forbidden name else name) = []"
    using assms(1) e by simp
  then show ?thesis
    using t r by (simp add: corrected_name_def Let_def)
qed

lemma all_forbidden_flags:
  assumes "name \<noteq> []" and "list_all forbidden_chars name"
  shows "has_invalid name" and "\<not> has_trailing name" and "\<not> is_reserved name"
    and "re_sub_forbidden name = replicate (length name) CHR ''_''"
proof -
  from assms have h: "forbidden_chars (hd name)" and l: "forbidden_chars (last name)"
    by (auto simp: list_all_iff)
  show "has_invalid name"
    using assms h by (cases name) (auto simp: has_invalid_def re_search_forbidden_def)
  have "\<not> space_or_dot (hd name)" "\<not> space_or_dot (last name)"
    using h l by (auto simp: space_or_dot_def forbidden_chars_def)
  then show "\<not> has_trailing name"
    by (simp add: has_trailing_def strip_sd_id_iff)
  show "\<not> is_reserved name"
    using is_reserved_hd [of name] h forbidden_not_initial by blast
  show "re_sub_forbidden name = replicate (length name) CHR ''_''"
    using assms(2) by (induction name) auto
qed

lemma takeWhile_rev_last_split:
  assumes "x \<notin> set zs"
  shows "rev (takeWhile (\<lambda>c. c \<noteq> x) (rev (ys @ x # zs))) = zs"
proof -
  have "takeWhile (\<lambda>c. c \<noteq> x) (rev zs @ x # rev ys) = rev zs"
    using assms by (subst takeWhile_append2) auto
  then show ?thesis by simp
qed

lemma splitext_cases:
  "(\<exists>b e. p = b @ CHR ''.'' # e \<and> b \<noteq> [] \<and> CHR ''.'' \<notin> set e \<and> splitext p = (b, CHR ''.'' # e))
   \<or> splitext p = (p, [])"
proof (cases "CHR ''.'' \<in> set (dropWhile (\<lambda>c. c = CHR ''.'')
                 (rev (takeWhile (\<lambda>c. c \<noteq> CHR ''/'') (rev p))))")
  case False
  then show ?thesis by (simp add: splitext_def Let_def)
next
  case True
  let ?fname = "rev (takeWhile (\<lambda>c. c \<noteq> CHR ''/'') (rev p))"
  obtain q where q: "p = q @ ?fname"
    by (metis rev_append rev_rev_ident takeWhile_dropWhile_id)
  from True have "CHR ''.'' \<in> set ?fname" by (blast dest: set_dropWhileD)
  then obtain g e where ge: "?fname = g @ CHR ''.'' # e" "CHR ''.'' \<notin> set e"
    by (meson split_list_last)
  have g: "g \<noteq> []"
  proof
    assume "g = []"
    with ge have "dropWhile (\<lambda>c. c = CHR ''.'') ?fname = dropWhile (\<lambda>c. c = CHR ''.'') e"
      by simp
    with True ge(2) show False by (auto dest: set_dropWhileD)
  qed
  have e: "rev (takeWhile (\<lambda>c. c \<noteq> CHR ''.'') (rev ?fname)) = e"
    unfolding ge(1) using ge(2) by (rule takeWhile_rev_last_split)
  have p: "p = (q @ g) @ CHR ''.'' # e" using q ge(1) by simp
  have len: "length p - Suc (length e) = length (q @ g)"
    by (subst p) simp
  have "splitext p = (take (length (q @ g)) p, drop (length (q @ g)) p)"
    using True e len by (simp add: splitext_def Let_def)
  also have "\<dots> = (q @ g, CHR ''.'' # e)"
    using p by (metis append_eq_conv_conj)
  finally show ?thesis using p g ge(2) by blast
qed

lemma splitext_append: "fst (splitext p) @ snd (splitext p) = p"
  using splitext_cases [of p] by auto

lemma splitext_base_nonempty: "p \<noteq> [] \<Longrightarrow> fst (splitext p) \<noteq> []"
  using splitext_cases [of p] by auto

lemma splitext_base_hd: "p \<noteq> [] \<Longrightarrow> hd (fst (splitext p)) = hd p"
  using splitext_cases [of p] by auto

lemma splitext_ext_hd: "snd (splitext p) \<noteq> [] \<Longrightarrow> hd (snd (splitext p)) = CHR ''.''"
  using splitext_cases [of p] by auto

lemma splitext_ext_last: "snd (splitext p) \<noteq> [] \<Longrightarrow> last (snd (splitext p)) = last p"
  by (metis last_appendR splitext_append)

lemma set_splitext: "set (fst (splitext p)) \<subseteq> set p" "set (snd (splitext p)) \<subseteq> set p"
  using splitext_append [of p] by (metis Un_upper1 set_append, metis Un_upper2 set_append)

lemma digit_chars_upto: "list_all (\<lambda>n. char_of (48 + n) \<in> set ''0123456789'') [0..<10]"
  by code_simp

lemma digit_chars: "(n::nat) < 10 \<Longrightarrow> char_of (48 + n) \<in> set ''0123456789''"
  using digit_chars_upto by (simp only: list_all_iff) (metis atLeastLessThan_iff set_upt zero_le)

lemma set_str_nat: "set (str_nat n) \<subseteq> set ''0123456789''"
proof (induction n rule: str_nat.induct)
  case (1 n)
  show ?case
  proof (cases "n < 10")
    case True
    then show ?thesis using digit_chars [of n] by (simp add: str_nat.simps [of n])
  next
    case False
    have "n mod 10 < 10" by simp
    then have "char_of (48 + n mod 10) \<in> set ''0123456789''" by (rule digit_chars)
    with False 1 show ?thesis by (simp add: str_nat.simps [of n])
  qed
qed

lemma str_nat_nonempty: "str_nat n \<noteq> []"
  by (simp add: str_nat.simps [of n])

text \<open>What the collision loop keeps of the candidate.\<close>

lemma collision_loop_set:
  "set new_name \<subseteq> A \<Longrightarrow> set ext \<subseteq> A \<Longrightarrow> CHR ''_'' \<in> A \<Longrightarrow> set ''0123456789'' \<subseteq> A
   \<Longrightarrow> set (collision_loop existing ext counter new_name) \<subseteq> A"
proof (induction existing ext counter new_name rule: collision_loop.induct)
  case (1 existing ext counter new_name)
  show ?case
  proof (cases "new_name \<in> set existing")
    case False
    then have "collision_loop existing ext counter new_name = new_name"
      by (subst collision_loop.simps) simp
    with "1.prems"(1) show ?thesis by (simp only:)
  next
    case True
    let ?next = "fst (splitext new_name) @ ''_'' @ str_nat counter @ ext"
    have eq: "collision_loop existing ext counter new_name
              = collision_loop existing ext (Suc counter) ?next"
      using True by (subst collision_loop.simps) simp
    have b: "set (fst (splitext new_name)) \<subseteq> A"
      using set_splitext(1) [of new_name] "1.prems"(1) by (rule subset_trans)
    have d: "set (str_nat counter) \<subseteq> A"
      using set_str_nat "1.prems"(4) by (rule subset_trans)
    have "set ?next \<subseteq> A"
      using b d "1.prems"(2,3) by simp
    then have "set (collision_loop existing ext (Suc counter) ?next) \<subseteq> A"
      using "1.prems"(2,3,4) by (rule "1.IH" [OF True])
    then show ?thesis by (simp only: eq)
  qed
qed

lemma collision_loop_hd:
  "new_name \<noteq> [] \<Longrightarrow>
   collision_loop existing ext counter new_name \<noteq> []
   \<and> hd (collision_loop existing ext counter new_name) = hd new_name"
proof (induction existing ext counter new_name rule: collision_loop.induct)
  case (1 existing ext counter new_name)
  show ?case
  proof (cases "new_name \<in> set existing")
    case False
    with 1(2) show ?thesis by (simp add: collision_loop.simps [of existing ext counter new_name])
  next
    case True
    let ?next = "fst (splitext new_name) @ ''_'' @ str_nat counter @ ext"
    have "?next \<noteq> []" by simp
    moreover have "hd ?next = hd new_name"
      using 1(2) splitext_base_nonempty [of new_name] splitext_base_hd [of new_name] by simp
    ultimately show ?thesis
      using 1(1) [OF True] True by (subst (1 2) collision_loop.simps) simp
  qed
qed

lemma collision_loop_last:
  "collision_loop existing ext counter new_name = new_name
   \<or> (if ext = [] then last (collision_loop existing ext counter new_name) \<in> set ''0123456789''
       else last (collision_loop existing ext counter new_name) = last ext)"
proof (induction existing ext counter new_name rule: collision_loop.induct)
  case (1 existing ext counter new_name)
  show ?case
  proof (cases "new_name \<in> set existing")
    case False
    then show ?thesis by (simp add: collision_loop.simps [of existing ext counter new_name])
  next
    case True
    let ?next = "fst (splitext new_name) @ ''_'' @ str_nat counter @ ext"
    have l: "if ext = [] then last ?next \<in> set ''0123456789'' else last ?next = last ext"
    proof (cases "ext = []")
      case True
      have "last (str_nat counter) \<in> set (str_nat counter)"
        using str_nat_nonempty by simp
      then have "last (str_nat counter) \<in> set ''0123456789''"
        using set_str_nat by blast
      moreover have "last ?next = last (str_nat counter)"
        using True str_nat_nonempty by simp
      ultimately show ?thesis using True by simp
    next
      case False
      then show ?thesis by simp
    qed
    have eq: "collision_loop existing ext counter new_name
              = collision_loop existing ext (Suc counter) ?next"
      using True by (subst collision_loop.simps) simp
    from 1 [OF True] l show ?thesis
      unfolding eq by (auto split: if_splits)
  qed
qed

text \<open>What the corrections of lines 63-85 guarantee for the candidate.\<close>

lemma set_truncate_name: "set (truncate_name L s) \<subseteq> set s"
proof (cases "int (length s) > L")
  case False
  then show ?thesis by (simp add: truncate_name_def)
next
  case True
  have "set (py_prefix (fst (splitext s)) (L - int (length (snd (splitext s)))))
          \<subseteq> set (fst (splitext s))"
    by (auto simp: py_prefix_def dest: in_set_takeD)
  with set_splitext [of s] True show ?thesis
    by (auto simp: truncate_name_def case_prod_beta)
qed

lemma set_re_sub: "set (re_sub_forbidden s) \<subseteq> {c. \<not> forbidden_chars c}"
  by (auto simp: re_sub_forbidden_map forbidden_chars_def)

lemma unnamed_chars:
  "set ''unnamed'' \<subseteq> {c. \<not> forbidden_chars c}" "set ''unnamed'' \<subseteq> {c. \<not> space_or_dot c}"
  by (auto simp: forbidden_chars_def space_or_dot_def)

lemma suffix_chars:
  "\<not> forbidden_chars CHR ''_''" "set ''0123456789'' \<subseteq> {c. \<not> forbidden_chars c}"
  "\<not> space_or_dot CHR ''_''" "set ''0123456789'' \<subseteq> {c. \<not> space_or_dot c}"
  by (auto simp: forbidden_chars_def space_or_dot_def)

lemma corrected_name_no_forbidden:
  assumes "has_invalid name"
  shows "set (corrected_name L name) \<subseteq> {c. \<not> forbidden_chars c}"
proof -
  let ?n1 = "re_sub_forbidden name"
  let ?n2 = "if has_trailing name then (if strip_sd ?n1 = [] then ''unnamed'' else strip_sd ?n1)
             else ?n1"
  let ?n3 = "if is_reserved name then CHR ''_'' # ?n2 else ?n2"
  have "set ?n2 \<subseteq> {c. \<not> forbidden_chars c}"
    using set_re_sub [of name] set_strip_sd [of ?n1] unnamed_chars(1) by (auto split: if_splits)
  then have "set ?n3 \<subseteq> {c. \<not> forbidden_chars c}"
    using suffix_chars(1) by auto
  moreover have "corrected_name L name = truncate_name L ?n3"
    using assms by (simp add: corrected_name_def Let_def)
  ultimately show ?thesis
    using set_truncate_name [of L ?n3] by auto
qed

lemma strip_sd_segment: "\<exists>a b. s = a @ strip_sd s @ b"
proof -
  let ?A = "dropWhile space_or_dot s"
  have 1: "s = takeWhile space_or_dot s @ ?A" by simp
  have 2: "rev ?A = takeWhile space_or_dot (rev ?A) @ dropWhile space_or_dot (rev ?A)" by simp
  have "?A = strip_sd s @ rev (takeWhile space_or_dot (rev ?A))"
    unfolding strip_sd_def by (metis 2 rev_append rev_rev_ident)
  with 1 show ?thesis by metis
qed

lemma strip_sd_shorter: "strip_sd s \<noteq> s \<Longrightarrow> length (strip_sd s) < length s"
proof -
  assume n: "strip_sd s \<noteq> s"
  obtain a b where ab: "s = a @ strip_sd s @ b" using strip_sd_segment by blast
  then have "length s = length a + length (strip_sd s) + length b"
    by (metis add.assoc length_append)
  moreover have "a \<noteq> [] \<or> b \<noteq> []" using n ab by auto
  ultimately show ?thesis by (cases a; cases b) auto
qed

lemma has_trailing_working_name:
  assumes "has_trailing name"
  shows "length (strip_sd (if has_invalid name then re_sub_forbidden name else name)) < length name"
proof (cases "has_invalid name")
  case False
  with assms show ?thesis by (simp add: has_trailing_def strip_sd_shorter)
next
  case True
  have "length (strip_sd (re_sub_forbidden name)) = length (strip_sd name)"
    by (simp add: strip_sd_re_sub)
  with assms True show ?thesis by (simp add: has_trailing_def strip_sd_shorter)
qed

lemma working_name_hd:
  assumes "is_reserved name"
  shows "hd (if has_invalid name then re_sub_forbidden name else name) = hd name"
proof -
  from assms have n: "name \<noteq> []" and h: "\<not> forbidden_chars (hd name)"
    using is_reserved_hd forbidden_not_initial by blast+
  then show ?thesis by (cases name) auto
qed

lemma splitext_unnamed: "splitext ''unnamed'' = (''unnamed'', [])"
  by code_simp

lemma corrected_name_ends:
  assumes "has_trailing name" and "int (length name) \<le> L"
  shows "corrected_name L name \<noteq> []
         \<and> \<not> space_or_dot (hd (corrected_name L name))
         \<and> \<not> space_or_dot (last (corrected_name L name))"
proof -
  let ?n1 = "if has_invalid name then re_sub_forbidden name else name"
  have short: "length (strip_sd ?n1) < length name"
    using assms(1) by (rule has_trailing_working_name)
  have ne: "name \<noteq> []" using assms(1) by (auto simp: has_trailing_def strip_sd_def)
  show ?thesis
  proof (cases "strip_sd ?n1 = []")
    case True
    have "\<not> is_reserved name"
    proof
      assume r: "is_reserved name"
      have "?n1 \<noteq> []" using ne by simp
      then have "hd ?n1 \<in> set ?n1" by (rule hd_in_set)
      with True have "space_or_dot (hd ?n1)" by (simp only: strip_sd_Nil_iff)
      then have "space_or_dot (hd name)" using working_name_hd [OF r] by simp
      with is_reserved_hd [OF r] sd_not_initial show False by blast
    qed
    with True assms(1) have c: "corrected_name L name = truncate_name L ''unnamed''"
      by (simp add: corrected_name_def Let_def)
    have L: "1 \<le> L" using ne assms(2) by (cases name) auto
    have "truncate_name L ''unnamed'' = take (nat L) ''unnamed''"
      using L by (simp add: truncate_name_def splitext_unnamed py_prefix_def)
    with c have t: "corrected_name L name = take (nat L) ''unnamed''" by simp
    have nonempty: "corrected_name L name \<noteq> []" using L by (simp add: t)
    then have "hd (corrected_name L name) \<in> set ''unnamed''"
      and "last (corrected_name L name) \<in> set ''unnamed''"
      unfolding t by (metis hd_in_set in_set_takeD, metis last_in_set in_set_takeD)
    with nonempty unnamed_chars(2) show ?thesis by blast
  next
    case False
    let ?n2 = "strip_sd ?n1"
    let ?n3 = "if is_reserved name then CHR ''_'' # ?n2 else ?n2"
    have "int (length ?n3) \<le> L" using short assms(2) by auto
    then have tr: "truncate_name L ?n3 = ?n3" by (rule truncate_name_short)
    have "corrected_name L name = truncate_name L ?n3"
      unfolding corrected_name_def Let_def using False assms(1) by (simp only: if_P if_not_P if_False if_True)
    then have c: "corrected_name L name = ?n3"
      by (simp only: tr)
    from strip_sd_ends [OF False] False suffix_chars(3) show ?thesis
      unfolding c by auto
  qed
qed

lemma corrected_name_reserved_hd:
  assumes "is_reserved name" and "\<not> has_trailing name" and "int (length name) \<le> L"
  shows "corrected_name L name \<noteq> [] \<and> hd (corrected_name L name) = CHR ''_''"
proof -
  let ?n1 = "if has_invalid name then re_sub_forbidden name else name"
  let ?n3 = "CHR ''_'' # ?n1"
  have c: "corrected_name L name = truncate_name L ?n3"
    using assms(1,2) by (simp add: corrected_name_def Let_def)
  have len: "length ?n1 = length name" by simp
  have n1: "?n1 \<noteq> []" using is_reserved_hd [OF assms(1)] by auto
  show ?thesis
  proof (cases "int (length ?n3) > L")
    case False
    then show ?thesis unfolding c by (simp add: truncate_name_def)
  next
    case True
    let ?b = "fst (splitext ?n3)" and ?e = "snd (splitext ?n3)"
    have be: "?b @ ?e = ?n3" by (rule splitext_append)
    have b: "?b \<noteq> []" by (rule splitext_base_nonempty) simp
    have hb: "hd ?b = CHR ''_''" using splitext_base_hd [of ?n3] by simp
    have "length ?b + length ?e = Suc (length name)"
      using be len by (metis length_append length_Cons)
    moreover have "L = int (length name)" using True assms(3) len by simp
    ultimately have k: "L - int (length ?e) = int (length ?b) - 1" by simp
    have "py_prefix ?b (L - int (length ?e)) = butlast ?b"
      unfolding k using b by (cases ?b rule: rev_cases) (auto simp: py_prefix_def)
    then have t: "truncate_name L ?n3 = butlast ?b @ ?e"
      using True by (simp add: truncate_name_def case_prod_beta)
    show ?thesis
    proof (cases "butlast ?b = []")
      case False
      then have "hd (butlast ?b) = hd ?b"
        by (cases ?b rule: rev_cases) (auto simp: b)
      with False hb show ?thesis unfolding c t by simp
    next
      case True
      with b hb have "?b = ''_''" by (cases ?b) (auto split: if_splits)
      with be have e: "?e = ?n1" by simp
      with n1 have "hd ?n1 = CHR ''.''" using splitext_ext_hd [of ?n3] by simp
      then have "hd name = CHR ''.''" using working_name_hd [OF assms(1)] by simp
      with is_reserved_hd [OF assms(1)] show ?thesis by auto
    qed
  qed
qed


text \<open>Paths as strings: a name without a separator is the last component of the path
  it is joined to.\<close>

lemma join_shape:
  assumes "CHR ''/'' \<notin> set n"
  shows "\<exists>pre. os_path_join r n = pre @ n \<and> (pre = [] \<or> last pre = CHR ''/'')"
proof -
  have j: "os_path_join r n = (if r = [] \<or> last r = CHR ''/'' then r @ n else (r @ ''/'') @ n)"
    using assms by (cases n) (auto simp: os_path_join_def)
  show ?thesis
  proof (cases "r = [] \<or> last r = CHR ''/''")
    case True
    with j show ?thesis by (intro exI [of _ r]) auto
  next
    case False
    with j show ?thesis by (intro exI [of _ "r @ ''/''"]) auto
  qed
qed

lemma last_component:
  assumes "CHR ''/'' \<notin> set n" and "pre = [] \<or> last pre = CHR ''/''"
  shows "rev (takeWhile (\<lambda>c. c \<noteq> CHR ''/'') (rev (pre @ n))) = n"
proof -
  have "takeWhile (\<lambda>c. c \<noteq> CHR ''/'') (rev pre) = []"
    using assms(2) by (cases pre rule: rev_cases) auto
  then have "takeWhile (\<lambda>c. c \<noteq> CHR ''/'') (rev n @ rev pre) = rev n"
    using assms(1) by (subst takeWhile_append2) auto
  then show ?thesis by simp
qed

lemma basename_join:
  "CHR ''/'' \<notin> set name \<Longrightarrow> os_path_basename (os_path_join root name) = name"
proof -
  assume n: "CHR ''/'' \<notin> set name"
  then obtain pre where "os_path_join root name = pre @ name" and "pre = [] \<or> last pre = CHR ''/''"
    using join_shape by blast
  then show ?thesis
    using last_component [OF n, of pre] by (simp only: os_path_basename_def)
qed

lemma splitext_prefixed:
  assumes "CHR ''/'' \<notin> set n" and "pre = [] \<or> last pre = CHR ''/''"
  shows "splitext (pre @ n) = (pre @ fst (splitext n), snd (splitext n))"
proof -
  have f: "rev (takeWhile (\<lambda>c. c \<noteq> CHR ''/'') (rev (pre @ n))) = n"
    using assms by (rule last_component)
  have g: "rev (takeWhile (\<lambda>c. c \<noteq> CHR ''/'') (rev n)) = n"
    using last_component [OF assms(1), of "[]"] by simp
  let ?e = "rev (takeWhile (\<lambda>c. c \<noteq> CHR ''.'') (rev n))"
  show ?thesis
  proof (cases "CHR ''.'' \<in> set (dropWhile (\<lambda>c. c = CHR ''.'') n)")
    case False
    then show ?thesis by (simp add: splitext_def Let_def f g del: rev_append)
  next
    case True
    then have "CHR ''.'' \<in> set n" by (blast dest: set_dropWhileD)
    then obtain ys zs where "n = ys @ CHR ''.'' # zs" and z: "CHR ''.'' \<notin> set zs"
      by (meson split_list_last)
    then have "?e = zs" and "length zs < length n"
      using takeWhile_rev_last_split [OF z, of ys] by simp_all
    then have lt: "length (takeWhile (\<lambda>c. c \<noteq> CHR ''.'') (rev n)) < length n"
      by (metis length_rev)
    let ?k = "length n - Suc (length (takeWhile (\<lambda>c. c \<noteq> CHR ''.'') (rev n)))"
    have k: "length pre + length n - Suc (length (takeWhile (\<lambda>c. c \<noteq> CHR ''.'') (rev n)))
             = length pre + ?k"
      using lt by simp
    have 1: "splitext n = (take ?k n, drop ?k n)"
      using True by (simp add: splitext_def Let_def g)
    have "splitext (pre @ n) = (take (length pre + ?k) (pre @ n), drop (length pre + ?k) (pre @ n))"
      using True f by (simp add: splitext_def Let_def k del: rev_append)
    then have "splitext (pre @ n) = (pre @ take ?k n, drop ?k n)" by simp
    with 1 show ?thesis by simp
  qed
qed

lemma splitext_join:
  "CHR ''/'' \<notin> set n \<Longrightarrow> snd (splitext (os_path_join root n)) = snd (splitext n)"
proof -
  assume n: "CHR ''/'' \<notin> set n"
  then obtain pre where "os_path_join root n = pre @ n" and "pre = [] \<or> last pre = CHR ''/''"
    using join_shape by blast
  then show ?thesis
    using splitext_prefixed [OF n, of pre] by simp
qed

lemma corrected_name_no_separator: "CHR ''/'' \<notin> set (corrected_name L name)"
proof (cases "has_invalid name")
  case True
  then have "set (corrected_name L name) \<subseteq> {c. \<not> forbidden_chars c}"
    by (rule corrected_name_no_forbidden)
  moreover have "forbidden_chars CHR ''/''" by (simp add: forbidden_chars_def)
  ultimately show ?thesis by blast
next
  case False
  then have n: "CHR ''/'' \<notin> set name"
    by (auto simp: has_invalid_def re_search_forbidden_def list_ex_iff forbidden_chars_def)
  let ?n2 = "if has_trailing name then (if strip_sd name = [] then ''unnamed'' else strip_sd name)
             else name"
  let ?n3 = "if is_reserved name then CHR ''_'' # ?n2 else ?n2"
  have "CHR ''/'' \<notin> set ?n2" using n set_strip_sd [of name] by auto
  then have "CHR ''/'' \<notin> set ?n3" by auto
  moreover have "corrected_name L name = truncate_name L ?n3"
    using False by (simp add: corrected_name_def Let_def)
  ultimately show ?thesis using set_truncate_name [of L ?n3] by auto
qed

lemma ext_of_new_path:
  "snd (splitext (os_path_join root (corrected_name L name)))
   = snd (splitext (corrected_name L name))"
  using corrected_name_no_separator by (rule splitext_join)

lemma no_invalid_no_separator: "\<not> has_invalid name \<Longrightarrow> CHR ''/'' \<notin> set name"
  by (auto simp: has_invalid_def re_search_forbidden_def list_ex_iff forbidden_chars_def)

lemma renamed_name_differs:
  assumes "has_invalid name \<or> has_trailing name \<or> is_reserved name"
    and "has_invalid name \<or> int (length name) \<le> L"
  shows "collision_loop existing (snd (splitext (corrected_name L name))) 1 (corrected_name L name)
         \<noteq> name"
proof -
  let ?c = "corrected_name L name"
  let ?ext = "snd (splitext ?c)"
  let ?r = "collision_loop existing ?ext 1 ?c"
  have invalid: ?thesis if i: "has_invalid name"
  proof -
    have "set ?c \<subseteq> {c. \<not> forbidden_chars c}"
      using i by (rule corrected_name_no_forbidden)
    moreover from this have "set ?ext \<subseteq> {c. \<not> forbidden_chars c}"
      using set_splitext(2) [of ?c] by (rule_tac subset_trans)
    ultimately have "set ?r \<subseteq> {c. \<not> forbidden_chars c}"
      using suffix_chars(1,2) by (intro collision_loop_set) simp_all
    moreover from i obtain x where "x \<in> set name" "forbidden_chars x"
      by (auto simp: has_invalid_def re_search_forbidden_def list_ex_iff)
    ultimately show ?thesis by auto
  qed
  have ?thesis if len: "int (length name) \<le> L" and ni: "\<not> has_invalid name"
  proof (cases "has_trailing name")
    case True
    from corrected_name_ends [OF True len]
    have c: "?c \<noteq> []" and h: "\<not> space_or_dot (hd ?c)" and l: "\<not> space_or_dot (last ?c)"
      by blast+
    from collision_loop_hd [OF c] have r: "?r \<noteq> []" and rh: "hd ?r = hd ?c" by blast+
    have rl: "\<not> space_or_dot (last ?r)"
    proof (cases "?r = ?c")
      case True
      with l show ?thesis by simp
    next
      case False
      with collision_loop_last [of existing ?ext 1 ?c]
      have "if ?ext = [] then last ?r \<in> set ''0123456789'' else last ?r = last ?ext"
        by blast
      then show ?thesis
        using suffix_chars(4) splitext_ext_last [of ?c] l by (auto split: if_splits)
    qed
    have "strip_sd ?r = ?r" using r h rh rl by (simp add: strip_sd_id_iff)
    with True show ?thesis by (auto simp: has_trailing_def)
  next
    case False
    show ?thesis
    proof (cases "is_reserved name")
      case True
      from corrected_name_reserved_hd [OF True False len]
      have "?c \<noteq> []" and "hd ?c = CHR ''_''" by blast+
      with collision_loop_hd [of ?c existing ?ext 1] have "hd ?r = CHR ''_''" by simp
      with is_reserved_hd [OF True] show ?thesis by auto
    next
      case r: False
      with False assms(1) ni show ?thesis by blast
    qed
  qed
  with invalid assms(2) show ?thesis by blast
qed

text \<open>The same for the entry of a directory: the length that line 46 measures and the
  extension that line 91 takes are those of the name.\<close>

lemma final_name_differs:
  assumes "has_invalid name \<or> has_trailing name \<or> is_reserved name"
    and "\<not> int (length (os_path_basename (os_path_join r name))) > L"
  shows "collision_loop existing (snd (splitext (os_path_join r (corrected_name L name)))) 1
           (corrected_name L name) \<noteq> name"
proof -
  have "has_invalid name \<or> int (length name) \<le> L"
  proof (cases "has_invalid name")
    case False
    then have "os_path_basename (os_path_join r name) = name"
      using no_invalid_no_separator basename_join by blast
    with assms(2) show ?thesis by simp
  qed simp
  with assms(1) show ?thesis
    unfolding ext_of_new_path by (rule renamed_name_differs)
qed

text \<open>What the sanitizer does guarantee.\<close>

lemma corrected_name_chars: "set (corrected_name L name) \<subseteq> {c. \<not> forbidden_chars c}"
proof -
  let ?n1 = "if has_invalid name then re_sub_forbidden name else name"
  let ?n2 = "if has_trailing name then (if strip_sd ?n1 = [] then ''unnamed'' else strip_sd ?n1)
             else ?n1"
  let ?n3 = "if is_reserved name then CHR ''_'' # ?n2 else ?n2"
  have "set ?n1 \<subseteq> {c. \<not> forbidden_chars c}"
    using set_re_sub [of name]
    by (auto simp: has_invalid_def re_search_forbidden_def list_ex_iff)
  then have "set ?n2 \<subseteq> {c. \<not> forbidden_chars c}"
    using set_strip_sd [of ?n1] unnamed_chars(1) by (auto split: if_splits)
  then have "set ?n3 \<subseteq> {c. \<not> forbidden_chars c}"
    using suffix_chars(1) by auto
  moreover have "corrected_name L name = truncate_name L ?n3"
    by (simp add: corrected_name_def Let_def)
  ultimately show ?thesis
    using set_truncate_name [of L ?n3] by auto
qed

lemma length_truncate_name:
  assumes "int (length (snd (splitext s))) \<le> L"
  shows "int (length (truncate_name L s)) \<le> L"
proof (cases "int (length s) > L")
  case False
  then show ?thesis by (simp add: truncate_name_def)
next
  case True
  have "length (py_prefix (fst (splitext s)) (L - int (length (snd (splitext s)))))
          \<le> nat (L - int (length (snd (splitext s))))"
    using assms by (simp add: py_prefix_def)
  with True assms show ?thesis
    by (simp add: truncate_name_def case_prod_beta)
qed

lemma upper_ascii_space: "upper_ascii CHR '' '' = CHR '' ''"
  by code_simp

lemma upper_ascii_dot: "upper_ascii CHR ''.'' = CHR ''.''"
  by code_simp

lemma upper_ascii_sd: "space_or_dot c \<Longrightarrow> upper_ascii c = c"
  unfolding space_or_dot_def using upper_ascii_space upper_ascii_dot by blast

lemma upper_ascii_word_char:
  assumes "upper_ascii c \<in> set ''CONPRAUXLMT''"
  shows "\<not> space_or_dot c"
proof
  assume sd: "space_or_dot c"
  with assms have "c \<in> set ''CONPRAUXLMT''" by (simp only: upper_ascii_sd)
  with sd show False by (auto simp: space_or_dot_def)
qed

lemma match_device_word:
  assumes "match_device s = Some r"
  shows "\<exists>w. s = w @ r \<and> (\<forall>c\<in>set w. \<not> space_or_dot c)"
proof -
  from assms have len: "3 \<le> length s"
    by (simp add: match_device_def split: if_splits)
  then obtain a b c t where s: "s = a # b # c # t"
    by (cases s; cases "tl s"; cases "tl (tl s)") auto
  have w3: "\<not> space_or_dot a \<and> \<not> space_or_dot b \<and> \<not> space_or_dot c"
    if "[upper_ascii a, upper_ascii b, upper_ascii c] \<in> set ws"
      and "set (concat ws) \<subseteq> set ''CONPRAUXLMT''" for ws
  proof -
    from that have "upper_ascii a \<in> set ''CONPRAUXLMT''"
      and "upper_ascii b \<in> set ''CONPRAUXLMT''" and "upper_ascii c \<in> set ''CONPRAUXLMT''"
      by fastforce+
    then show ?thesis using upper_ascii_word_char by blast
  qed
  show ?thesis
  proof (cases "map upper_ascii (take 3 s) \<in> set [''CON'', ''PRN'', ''AUX'', ''NUL'']")
    case True
    with assms len have r: "r = drop 3 s" by (simp add: match_device_def)
    from True have "[upper_ascii a, upper_ascii b, upper_ascii c]
                      \<in> set [''CON'', ''PRN'', ''AUX'', ''NUL'']"
      by (simp add: s)
    then have "\<not> space_or_dot a \<and> \<not> space_or_dot b \<and> \<not> space_or_dot c"
      by (rule w3) simp
    with r s show ?thesis by (intro exI [of _ "[a, b, c]"]) simp
  next
    case False
    with assms len have 4: "4 \<le> length s"
      and w: "map upper_ascii (take 3 s) \<in> set [''COM'', ''LPT'']"
      and d: "s ! 3 \<in> set ''123456789''" and r: "r = drop 4 s"
      by (simp_all add: match_device_def split: if_splits)
    from 4 s obtain d' t' where t: "t = d' # t'" by (cases t) auto
    from w have "[upper_ascii a, upper_ascii b, upper_ascii c] \<in> set [''COM'', ''LPT'']"
      by (simp add: s)
    then have abc: "\<not> space_or_dot a \<and> \<not> space_or_dot b \<and> \<not> space_or_dot c"
      by (rule w3) simp
    from d have "d' \<in> set ''123456789''" by (simp add: s t)
    then have "\<not> space_or_dot d'" by (auto simp: space_or_dot_def)
    with abc r s t show ?thesis by (intro exI [of _ "[a, b, c, d']"]) simp
  qed
qed

lemma tail_ok_no_dot:
  assumes "tail_ok r" and "CHR ''.'' \<notin> set r"
  shows "\<forall>c\<in>set r. \<not> space_or_dot c"
proof -
  have sub: "set (chomp r) \<subseteq> set r"
    by (auto simp: chomp_def dest: in_set_butlastD)
  have "chomp r = []"
  proof (rule ccontr)
    assume n: "chomp r \<noteq> []"
    with assms(1) have "hd (chomp r) = CHR ''.''" by (simp add: tail_ok_def)
    with n have "CHR ''.'' \<in> set (chomp r)" by (metis hd_in_set)
    with sub assms(2) show False by blast
  qed
  then have "r = [] \<or> r = [CHR 0x0A]"
    by (cases r rule: rev_cases) (auto simp: chomp_def split: if_splits)
  then show ?thesis by (auto simp: space_or_dot_def)
qed

lemma reserved_without_dot:
  assumes "is_reserved name" and "CHR ''.'' \<notin> set name"
  shows "\<forall>c\<in>set name. \<not> space_or_dot c"
proof -
  from assms(1) obtain r where m: "match_device name = Some r" and t: "tail_ok r"
    by (auto simp: is_reserved_def re_match_reserved_def split: option.splits)
  from match_device_word [OF m] obtain w where w: "name = w @ r" "\<forall>c\<in>set w. \<not> space_or_dot c"
    by blast
  with assms(2) have "CHR ''.'' \<notin> set r" by simp
  with t have "\<forall>c\<in>set r. \<not> space_or_dot c" by (rule tail_ok_no_dot)
  with w show ?thesis by auto
qed

lemma splitext_no_ext:
  assumes "snd (splitext p) = []" and "CHR ''/'' \<notin> set p" and "p \<noteq> []" and "hd p \<noteq> CHR ''.''"
  shows "CHR ''.'' \<notin> set p"
proof
  assume d: "CHR ''.'' \<in> set p"
  have f: "rev (takeWhile (\<lambda>c. c \<noteq> CHR ''/'') (rev p)) = p"
    using last_component [OF assms(2), of "[]"] by simp
  have "dropWhile (\<lambda>c. c = CHR ''.'') p = p" using assms(3,4) by (cases p) auto
  with d f have "snd (splitext p) =
      drop (length p - Suc (length (rev (takeWhile (\<lambda>c. c \<noteq> CHR ''.'') (rev p))))) p"
    by (simp add: splitext_def Let_def)
  moreover have "length p - Suc (length (rev (takeWhile (\<lambda>c. c \<noteq> CHR ''.'') (rev p)))) < length p"
    using assms(3) by (cases p) auto
  ultimately show False using assms(1,3) by (simp del: length_rev)
qed

lemma working_name_stripped:
  assumes "\<not> has_trailing name"
  shows "strip_sd (if has_invalid name then re_sub_forbidden name else name)
         = (if has_invalid name then re_sub_forbidden name else name)"
  using assms by (simp add: has_trailing_def strip_sd_re_sub)

lemma truncate_by_one:
  assumes "int (length s) = L + 1" and "s \<noteq> []"
  shows "truncate_name L s = butlast (fst (splitext s)) @ snd (splitext s)"
proof -
  let ?b = "fst (splitext s)" and ?e = "snd (splitext s)"
  have b: "?b \<noteq> []" using assms(2) by (rule splitext_base_nonempty)
  have "length ?b + length ?e = length s"
    by (metis length_append splitext_append)
  with assms(1) have k: "L - int (length ?e) = int (length ?b) - 1" by simp
  have "py_prefix ?b (L - int (length ?e)) = butlast ?b"
    unfolding k using b by (cases ?b rule: rev_cases) (auto simp: py_prefix_def)
  with assms(1) show ?thesis
    by (simp add: truncate_name_def case_prod_beta)
qed

lemma corrected_name_reserved_last:
  assumes "is_reserved name" and "\<not> has_trailing name" and "int (length name) \<le> L"
  shows "\<not> space_or_dot (last (corrected_name L name))"
proof -
  let ?n1 = "if has_invalid name then re_sub_forbidden name else name"
  let ?n3 = "CHR ''_'' # ?n1"
  have c: "corrected_name L name = truncate_name L ?n3"
    using assms(1,2) by (simp add: corrected_name_def Let_def)
  have n1: "?n1 \<noteq> []" using is_reserved_hd [OF assms(1)] by auto
  have st: "strip_sd ?n1 = ?n1" using assms(2) by (rule working_name_stripped)
  then have l1: "\<not> space_or_dot (last ?n1)" using n1 by (simp only: strip_sd_id_iff) blast
  have l3: "last ?n3 = last ?n1" using n1 by simp
  from corrected_name_reserved_hd [OF assms] have ne: "corrected_name L name \<noteq> []" by blast
  show ?thesis
  proof (cases "int (length ?n3) > L")
    case False
    then have "corrected_name L name = ?n3" unfolding c by (simp add: truncate_name_def)
    with l1 l3 show ?thesis by metis
  next
    case True
    moreover have "length ?n1 = length name" by simp
    ultimately have "int (length ?n3) = L + 1" using assms(3) by simp
    then have t: "corrected_name L name = butlast (fst (splitext ?n3)) @ snd (splitext ?n3)"
      unfolding c by (rule truncate_by_one) simp
    show ?thesis
    proof (cases "snd (splitext ?n3) = []")
      case False
      then have "last (corrected_name L name) = last ?n3"
        unfolding t using splitext_ext_last [of ?n3] by simp
      with l1 l3 show ?thesis by metis
    next
      case True
      then have b: "fst (splitext ?n3) = ?n3" using splitext_append [of ?n3] by simp
      have chars: "set ?n1 \<subseteq> {c. \<not> forbidden_chars c}"
        using set_re_sub [of name]
        by (auto simp: has_invalid_def re_search_forbidden_def list_ex_iff)
      have "forbidden_chars CHR ''/''" by (simp add: forbidden_chars_def)
      with chars have "CHR ''/'' \<notin> set ?n3" by auto
      with True have "CHR ''.'' \<notin> set ?n3" by (intro splitext_no_ext) simp_all
      then have "CHR ''.'' \<notin> set ?n1" by simp
      then have "CHR ''.'' \<notin> set name"
        by (auto simp: re_sub_forbidden_map forbidden_chars_def split: if_splits)
      with assms(1) have "\<forall>c\<in>set name. \<not> space_or_dot c" by (rule reserved_without_dot)
      then have "\<forall>c\<in>set ?n1. \<not> space_or_dot c"
        by (auto simp: re_sub_forbidden_map space_or_dot_def)
      then have "\<forall>c\<in>set ?n3. \<not> space_or_dot c" using suffix_chars(3) by simp
      moreover have "last (corrected_name L name) \<in> set ?n3"
        using ne unfolding t True b by (metis append_Nil2 in_set_butlastD last_in_set)
      ultimately show ?thesis by blast
    qed
  qed
qed

lemma corrected_name_reserved_start:
  assumes "is_reserved name" and "int (length name) \<le> L"
  shows "corrected_name L name \<noteq> [] \<and> hd (corrected_name L name) = CHR ''_''"
proof (cases "has_trailing name")
  case False
  with assms show ?thesis by (intro corrected_name_reserved_hd)
next
  case True
  let ?n1 = "if has_invalid name then re_sub_forbidden name else name"
  have n1: "?n1 \<noteq> []" using is_reserved_hd [OF assms(1)] by auto
  have "\<not> space_or_dot (hd ?n1)"
    using working_name_hd [OF assms(1)] is_reserved_hd [OF assms(1)] sd_not_initial by simp
  moreover have "hd ?n1 \<in> set ?n1" using n1 by (rule hd_in_set)
  ultimately have s: "strip_sd ?n1 \<noteq> []" by (simp only: strip_sd_Nil_iff) blast
  have "length (strip_sd ?n1) < length name" using True by (rule has_trailing_working_name)
  then have "int (length (CHR ''_'' # strip_sd ?n1)) \<le> L" using assms(2) by simp
  then have tr: "truncate_name L (CHR ''_'' # strip_sd ?n1) = CHR ''_'' # strip_sd ?n1"
    by (rule truncate_name_short)
  have "corrected_name L name = truncate_name L (CHR ''_'' # strip_sd ?n1)"
    unfolding corrected_name_def Let_def using s True assms(1)
    by (simp only: if_P if_not_P if_False if_True)
  with tr show ?thesis by simp
qed

lemma reserved_strip_nonempty:
  assumes "is_reserved name"
  shows "strip_sd (if has_invalid name then re_sub_forbidden name else name) \<noteq> []"
proof -
  let ?n1 = "if has_invalid name then re_sub_forbidden name else name"
  have n1: "?n1 \<noteq> []" using is_reserved_hd [OF assms] by auto
  have "\<not> space_or_dot (hd ?n1)"
    using working_name_hd [OF assms] is_reserved_hd [OF assms] sd_not_initial by simp
  moreover have "hd ?n1 \<in> set ?n1" using n1 by (rule hd_in_set)
  ultimately show ?thesis by (simp only: strip_sd_Nil_iff) blast
qed

lemma corrected_name_length:
  assumes "has_invalid name \<or> has_trailing name \<or> is_reserved name"
    and "int (length name) \<le> L"
  shows "int (length (corrected_name L name)) \<le> L"
proof -
  let ?n1 = "if has_invalid name then re_sub_forbidden name else name"
  let ?n2 = "if has_trailing name then (if strip_sd ?n1 = [] then ''unnamed'' else strip_sd ?n1)
             else ?n1"
  let ?n3 = "if is_reserved name then CHR ''_'' # ?n2 else ?n2"
  have c: "corrected_name L name = truncate_name L ?n3"
    by (simp add: corrected_name_def Let_def)
  have ne: "name \<noteq> []"
    using assms(1) is_reserved_hd [of name]
    by (auto simp: has_invalid_def re_search_forbidden_def has_trailing_def strip_sd_def)
  then have L: "1 \<le> L" using assms(2) by (cases name) auto
  have "int (length (snd (splitext ?n3))) \<le> L"
  proof (cases "has_trailing name \<and> strip_sd ?n1 = []")
    case True
    then have "\<not> is_reserved name"
      using reserved_strip_nonempty [of name] by blast
    with True L show ?thesis by (simp add: splitext_unnamed)
  next
    case False
    have "length ?n2 \<le> length name"
      using False has_trailing_working_name [of name] by (auto split: if_splits)
    then have n3: "int (length ?n3) \<le> L + 1" using assms(2) by (auto split: if_splits)
    have "?n2 \<noteq> []" using False ne by (auto split: if_splits)
    then have "?n3 \<noteq> []" by simp
    then have "fst (splitext ?n3) \<noteq> []" by (rule splitext_base_nonempty)
    moreover have "length (fst (splitext ?n3)) + length (snd (splitext ?n3)) = length ?n3"
      by (metis length_append splitext_append)
    ultimately have "length (snd (splitext ?n3)) < length ?n3"
      by (cases "fst (splitext ?n3)") auto
    with n3 show ?thesis by linarith
  qed
  then show ?thesis unfolding c by (rule length_truncate_name)
qed

lemma corrected_name_stripped:
  assumes "has_invalid name \<or> has_trailing name \<or> is_reserved name"
    and "int (length name) \<le> L"
  shows "corrected_name L name \<noteq> [] \<and> strip_sd (corrected_name L name) = corrected_name L name"
proof (cases "has_trailing name")
  case True
  from corrected_name_ends [OF True assms(2)] show ?thesis
    by (simp add: strip_sd_id_iff)
next
  case False
  show ?thesis
  proof (cases "is_reserved name")
    case True
    from corrected_name_reserved_hd [OF True False assms(2)]
      corrected_name_reserved_last [OF True False assms(2)] suffix_chars(3)
    show ?thesis by (simp add: strip_sd_id_iff)
  next
    case r: False
    with False assms(1) have i: "has_invalid name" by blast
    then have ne: "name \<noteq> []" by (auto simp: has_invalid_def re_search_forbidden_def)
    have "corrected_name L name = re_sub_forbidden name"
      using i False r assms(2) by (simp add: corrected_name_def truncate_name_short)
    moreover have "strip_sd (re_sub_forbidden name) = re_sub_forbidden name"
      using False by (simp add: has_trailing_def strip_sd_re_sub)
    ultimately show ?thesis using ne by simp
  qed
qed

text \<open>
  For a name within the limit the sanitized name is not empty, is within the limit, has
  no forbidden character and no leading or trailing space or dot.
\<close>

lemma sanitize_guarantees:
  assumes "name \<noteq> []" and "int (length name) \<le> L"
  shows "sanitize L name \<noteq> []
         \<and> int (length (sanitize L name)) \<le> L
         \<and> \<not> has_invalid (sanitize L name)
         \<and> \<not> has_trailing (sanitize L name)"
proof (cases "has_invalid name \<or> has_trailing name \<or> is_reserved name")
  case False
  with assms show ?thesis by (simp add: sanitize_def)
next
  case True
  then have s: "sanitize L name = corrected_name L name" by (simp add: sanitize_def)
  have "\<not> has_invalid (corrected_name L name)"
    using corrected_name_chars [of L name]
    by (auto simp: has_invalid_def re_search_forbidden_def list_ex_iff)
  with corrected_name_stripped [OF True assms(2)] corrected_name_length [OF True assms(2)]
  show ?thesis unfolding s by (simp add: has_trailing_def)
qed

text \<open>
  It can still be a reserved name, but only if the original was not one and the
  stripping or the substitution produced it; short of that a second application
  changes nothing.
\<close>

lemma reserved_result_is_exposed:
  assumes "is_reserved (sanitize L name)" and "int (length name) \<le> L"
  shows "\<not> is_reserved name \<and> (has_invalid name \<or> has_trailing name)"
proof -
  have n: "\<not> is_reserved name"
  proof
    assume r: "is_reserved name"
    then have "sanitize L name = corrected_name L name" by (simp add: sanitize_def)
    with corrected_name_reserved_start [OF r assms(2)]
    have "hd (sanitize L name) = CHR ''_''" by simp
    with is_reserved_hd [OF assms(1)] show False by auto
  qed
  moreover have "has_invalid name \<or> has_trailing name"
  proof (rule ccontr)
    assume "\<not> (has_invalid name \<or> has_trailing name)"
    with n have "sanitize L name = name" by (simp add: sanitize_def)
    with assms(1) n show False by simp
  qed
  ultimately show ?thesis by blast
qed

lemma sanitize_stable_unless_reserved:
  assumes "name \<noteq> []" and "int (length name) \<le> L" and "\<not> is_reserved (sanitize L name)"
  shows "sanitize L (sanitize L name) = sanitize L name"
  using sanitize_guarantees [OF assms(1,2)] assms(3) by (simp add: sanitize_def [of L "sanitize L name"])

section \<open>Facts about the walk\<close>

text \<open>A dry run returns the directory it was given.\<close>

lemma process_entry_dry_entries:
  "fst (process_entry h True L root name (es, st)) = es"
  by (simp add: process_entry_def Let_def)

lemma process_names_dry_entries:
  "fst (process_names h True L root names (es, st)) = es"
proof (induction names arbitrary: es st)
  case Nil
  then show ?case by (simp add: process_names_def)
next
  case (Cons name names)
  obtain es' st' where p: "process_entry h True L root name (es, st) = (es', st')"
    by (cases "process_entry h True L root name (es, st)")
  then have "es' = es" using process_entry_dry_entries [of h L root name es st] by simp
  with Cons [of es st'] p show ?case by (simp add: process_names_def)
qed

lemma walk_dry_tree:
  "fst (walk h True L root t st) = t"
proof (induction t arbitrary: root st)
  case File
  then show ?case by simp
next
  case (Dir es)
  have sub: "fst (walk_subdirs h True L root es' st) = es'" if "set es' \<subseteq> set es" for es' st
    using that
  proof (induction es' arbitrary: st)
    case Nil
    then show ?case by simp
  next
    case (Cons e es')
    obtain n t where e: "e = (n, t)" by (cases e)
    have "fst (walk h True L (root @ [n]) t st) = t"
      using Cons.prems e by (intro Dir.IH [of e t]) auto
    moreover have "fst (walk_subdirs h True L root es' (snd (walk h True L (root @ [n]) t st))) = es'"
      using Cons.prems by (intro Cons.IH) auto
    ultimately show ?case
      by (simp add: e case_prod_beta)
  qed
  obtain es1 st1 where w: "walk_subdirs h True L root es st = (es1, st1)"
    by (cases "walk_subdirs h True L root es st")
  then have "es1 = es" using sub [of es st] by simp
  with w show ?case
    using process_names_dry_entries [of h L root "dirs es @ files es" es st1]
    by (simp add: case_prod_beta)
qed

text \<open>A relation between the states of two runs that every entry preserves is preserved
  by the walk, whatever the two runs did to the directories.\<close>

lemma process_names_related:
  assumes step: "\<And>name es1 s1 es2 s2. R s1 s2 \<Longrightarrow>
                   R (snd (process_entry h d1 L root name (es1, s1)))
                     (snd (process_entry h d2 L root name (es2, s2)))"
  shows "R (snd p1) (snd p2) \<Longrightarrow>
         R (snd (process_names h d1 L root names p1)) (snd (process_names h d2 L root names p2))"
proof (induction names arbitrary: p1 p2)
  case Nil
  then show ?case by (simp add: process_names_def)
next
  case (Cons name names)
  have "R (snd (process_entry h d1 L root name p1)) (snd (process_entry h d2 L root name p2))"
    using step [OF Cons.prems, of name "fst p1" "fst p2"] by simp
  from Cons.IH [OF this] show ?case by (simp add: process_names_def)
qed

lemma walk_related:
  assumes step: "\<And>root name es1 s1 es2 s2. R s1 s2 \<Longrightarrow>
                   R (snd (process_entry h d1 L root name (es1, s1)))
                     (snd (process_entry h d2 L root name (es2, s2)))"
  shows "R s1 s2 \<Longrightarrow> R (snd (walk h d1 L root t s1)) (snd (walk h d2 L root t s2))"
proof (induction t arbitrary: root s1 s2)
  case File
  then show ?case by simp
next
  case (Dir es)
  have sub: "R s1 s2 \<Longrightarrow>
             R (snd (walk_subdirs h d1 L root es' s1)) (snd (walk_subdirs h d2 L root es' s2))"
    if "set es' \<subseteq> set es" for es' s1 s2
    using that
  proof (induction es' arbitrary: s1 s2)
    case Nil
    then show ?case by simp
  next
    case (Cons e es')
    obtain n t where e: "e = (n, t)" by (cases e)
    have "R (snd (walk h d1 L (root @ [n]) t s1)) (snd (walk h d2 L (root @ [n]) t s2))"
      using Cons.prems e by (intro Dir.IH [of e t]) auto
    then have "R (snd (walk_subdirs h d1 L root es' (snd (walk h d1 L (root @ [n]) t s1))))
                 (snd (walk_subdirs h d2 L root es' (snd (walk h d2 L (root @ [n]) t s2))))"
      using Cons.prems by (intro Cons.IH) auto
    then show ?case by (simp add: e case_prod_beta)
  qed
  have "R (snd (walk_subdirs h d1 L root es s1)) (snd (walk_subdirs h d2 L root es s2))"
    using Dir.prems by (intro sub) auto
  then have "R (snd (process_names h d1 L root (dirs es @ files es) (walk_subdirs h d1 L root es s1)))
               (snd (process_names h d2 L root (dirs es @ files es) (walk_subdirs h d2 L root es s2)))"
    using step by (rule process_names_related [rotated])
  then show ?case by (simp add: case_prod_beta)
qed

lemma process_entry_agree:
  assumes "agree h e0 r0 s1 s2"
  shows "agree h e0 r0 (snd (process_entry h True L root name (es1, s1)))
                    (snd (process_entry h False L root name (es2, s2)))"
proof (cases "name = script_name h
              \<or> int (length (os_path_basename (os_path_join (path_str root) name))) > L
              \<or> \<not> (has_invalid name \<or> has_trailing name \<or> is_reserved name)")
  case True
  with assms show ?thesis
    by (auto simp: process_entry_def agree_def per_entry_reasons_def too_long_warnings_def
        renames_performed_def)
next
  case False
  then have f: "has_invalid name \<or> has_trailing name \<or> is_reserved name"
    and l: "\<not> int (length (os_path_basename (os_path_join (path_str root) name))) > L"
    and n: "name \<noteq> script_name h" by auto
  let ?c = "corrected_name L name"
  let ?ext = "snd (splitext (os_path_join (path_str root) ?c))"
  let ?new1 = "collision_loop (map fst es1) ?ext 1 ?c"
  let ?new2 = "collision_loop (map fst es2) ?ext 1 ?c"
  have d1: "?new1 \<noteq> name" and d2: "?new2 \<noteq> name"
    using f l by (rule final_name_differs)+
  have dry: "snd (process_entry h True L root name (es1, s1))
             = s1\<lparr>trace := trace s1 @ [ChangeReport True root name ?new1 (reasons_of name)],
                  change_count := change_count s1 + 1\<rparr>"
    using f l n d1 by (simp add: process_entry_def Let_def)
  show ?thesis
  proof (cases "rename_fails h (root @ [name]) (root @ [?new2])")
    case True
    then have "snd (process_entry h False L root name (es2, s2))
             = s2\<lparr>trace := trace s2 @ [ChangeReport False root name ?new2 (reasons_of name),
                                         RenameError name],
                  error_count := error_count s2 + 1\<rparr>"
      using f l n d2 by (simp add: process_entry_def Let_def)
    with dry assms True show ?thesis
      by (auto simp: agree_def per_entry_reasons_def too_long_warnings_def renames_performed_def)
  next
    case False
    then have "snd (process_entry h False L root name (es2, s2))
             = s2\<lparr>trace := trace s2 @ [ChangeReport False root name ?new2 (reasons_of name),
                                         OsRename (root @ [name]) (root @ [?new2])],
                  change_count := change_count s2 + 1\<rparr>"
      using f l n d2 by (simp add: process_entry_def Let_def)
    with dry assms show ?thesis
      by (auto simp: agree_def per_entry_reasons_def too_long_warnings_def renames_performed_def)
  qed
qed

lemma walk_agree:
  "agree h (error_count st) (renames_performed (trace st))
     (snd (walk h True L root t st)) (snd (walk h False L root t st))"
proof -
  have "agree h (error_count st) (renames_performed (trace st)) st st" by (simp add: agree_def)
  then show ?thesis
    using process_entry_agree
    by (intro walk_related [where R = "agree h (error_count st) (renames_performed (trace st))"])
qed

text \<open>The order of the trace.\<close>

lemma entries_touched_append [simp]:
  "entries_touched (a @ b) = entries_touched a @ entries_touched b"
  by (simp add: entries_touched_def)

lemma entries_touched_Nil [simp]: "entries_touched [] = []"
  by (simp add: entries_touched_def)













section \<open>The sanitizer on single names\<close>

text \<open>
  C1. The claim: for every name no longer than \<open>max_length\<close>, the sanitized name is
  non-empty, within the limit, free of forbidden characters, free of a leading or
  trailing space or dot, and not a reserved device name. The reserved-name detection is
  made on the original name only: a reserved name that appears once a leading space is
  stripped is returned as it is. The other four guarantees hold
  (\<open>sanitize_guarantees\<close>), and a reserved result arises in no other way
  (\<open>reserved_result_is_exposed\<close>).
\<close>

theorem stripped_name_is_reserved:
  "sanitize 255 '' CON'' = ''CON'' \<and> is_reserved (sanitize 255 '' CON'')"
  by code_simp

text \<open>
  C2. The claim: sanitizing a sanitized name changes nothing. The name returned for
  \<open>'' CON''\<close> is changed again by a second application, which now detects the reserved
  name. A sanitized name that is not reserved is left as it is
  (\<open>sanitize_stable_unless_reserved\<close>).
\<close>

theorem resanitizing_changes_the_name:
  "sanitize 255 (sanitize 255 '' CON'') = ''_CON''
   \<and> sanitize 255 (sanitize 255 '' CON'') \<noteq> sanitize 255 '' CON''"
  by code_simp

text \<open>
  C5. When forbidden characters are detected, the substitution step puts one underscore
  in the place of each forbidden character, keeps every other character where it is and
  keeps the length; where no other detection fires and the name is within the limit this
  is the sanitized name, and \<open>a:b*c?.txt\<close> becomes \<open>a_b_c_.txt\<close>.
\<close>

theorem substitution_replaces_each_forbidden_char:
  assumes "has_invalid name"
  shows "length (re_sub_forbidden name) = length name
         \<and> (\<forall>i < length name.
              re_sub_forbidden name ! i = (if forbidden_chars (name ! i) then CHR ''_'' else name ! i))
         \<and> (\<not> has_trailing name \<and> \<not> is_reserved name \<and> int (length name) \<le> L
              \<longrightarrow> sanitize L name = re_sub_forbidden name)
         \<and> sanitize 255 ''a:b*c?.txt'' = ''a_b_c_.txt''"
proof -
  have "sanitize 255 ''a:b*c?.txt'' = ''a_b_c_.txt''" by code_simp
  moreover have "\<not> has_trailing name \<and> \<not> is_reserved name \<and> int (length name) \<le> L
              \<longrightarrow> sanitize L name = re_sub_forbidden name"
    using assms by (simp add: sanitize_def corrected_name_def truncate_name_short)
  ultimately show ?thesis
    by (simp add: re_sub_forbidden_map)
qed

theorem substitution_replaces_each_forbidden_char_witness:
  "has_invalid ''a:b*c?.txt''
   \<and> length (re_sub_forbidden ''a:b*c?.txt'') = 10
   \<and> re_sub_forbidden ''a:b*c?.txt'' ! 1 = CHR ''_''
   \<and> re_sub_forbidden ''a:b*c?.txt'' ! 2 = CHR ''b''
   \<and> sanitize 255 ''a:b*c?.txt'' = re_sub_forbidden ''a:b*c?.txt''"
proof -
  have h: "has_invalid ''a:b*c?.txt''" by code_simp
  have t: "\<not> has_trailing ''a:b*c?.txt''" by code_simp
  have r: "\<not> is_reserved ''a:b*c?.txt''" by code_simp
  have f1: "forbidden_chars (''a:b*c?.txt'' ! 1)" by code_simp
  have f2: "\<not> forbidden_chars (''a:b*c?.txt'' ! 2)" by code_simp
  from substitution_replaces_each_forbidden_char [OF h, of 255] t r f1 f2 h
  show ?thesis by simp
qed

text \<open>
  C10. A non-empty name made of forbidden characters only becomes as many underscores
  (so \<open>???\<close> becomes \<open>___\<close>). The placeholder \<open>unnamed\<close> is used exactly when stripping
  spaces and dots from the substituted name leaves nothing; otherwise the result is built
  from the stripped, substituted name itself.
\<close>

theorem placeholder_only_for_space_dot_names:
  assumes "int (length name) \<le> L"
  shows "(name \<noteq> [] \<and> list_all forbidden_chars name
            \<longrightarrow> sanitize L name = replicate (length name) CHR ''_'')
         \<and> (strip_sd (re_sub_forbidden name) \<noteq> []
            \<longrightarrow> sanitize L name =
                truncate_name L ((if is_reserved name then ''_'' else [])
                                 @ strip_sd (re_sub_forbidden name)))
         \<and> (name \<noteq> [] \<and> strip_sd (re_sub_forbidden name) = []
            \<longrightarrow> sanitize L name = truncate_name L ''unnamed'')
         \<and> sanitize 255 ''???'' = ''___''"
proof (intro conjI impI)
  assume a: "name \<noteq> [] \<and> list_all forbidden_chars name"
  then show "sanitize L name = replicate (length name) CHR ''_''"
    using all_forbidden_flags [of name] assms
    by (simp add: sanitize_def corrected_name_def truncate_name_short)
next
  assume s: "strip_sd (re_sub_forbidden name) \<noteq> []"
  show "sanitize L name =
        truncate_name L ((if is_reserved name then ''_'' else []) @ strip_sd (re_sub_forbidden name))"
  proof (cases "has_invalid name \<or> has_trailing name \<or> is_reserved name")
    case True
    then show ?thesis using corrected_name_nonempty_strip [OF s] by (simp add: sanitize_def)
  next
    case False
    then have "strip_sd (re_sub_forbidden name) = name"
      by (simp add: has_invalid_def has_trailing_def re_sub_id)
    with False assms show ?thesis by (simp add: sanitize_def truncate_name_short)
  qed
next
  assume "name \<noteq> [] \<and> strip_sd (re_sub_forbidden name) = []"
  then show "sanitize L name = truncate_name L ''unnamed''"
    using corrected_name_empty_strip [of name L] by (simp add: sanitize_def)
next
  show "sanitize 255 ''???'' = ''___''" by code_simp
qed

theorem placeholder_only_for_space_dot_names_witness:
  "sanitize 255 ''???'' = replicate (length ''???'') CHR ''_''
   \<and> sanitize 255 '' a?b.'' = ''a_b''
   \<and> sanitize 255 ''. .'' = ''unnamed''"
proof -
  have l1: "int (length ''???'') \<le> 255" by simp
  have l2: "int (length '' a?b.'') \<le> 255" by simp
  have l3: "int (length ''. .'') \<le> 255" by simp
  have a1: "''???'' \<noteq> [] \<and> list_all forbidden_chars ''???''" by code_simp
  have a2: "strip_sd (re_sub_forbidden '' a?b.'') = ''a_b''" by code_simp
  have r2: "\<not> is_reserved '' a?b.''" by code_simp
  have t2: "truncate_name 255 ''a_b'' = ''a_b''" by code_simp
  have a3: "''. .'' \<noteq> [] \<and> strip_sd (re_sub_forbidden ''. .'') = []" by code_simp
  have t3: "truncate_name 255 ''unnamed'' = ''unnamed''" by code_simp
  from placeholder_only_for_space_dot_names [OF l1] a1
  have "sanitize 255 ''???'' = replicate (length ''???'') CHR ''_''" by simp
  moreover from placeholder_only_for_space_dot_names [OF l2] a2 r2 t2
  have "sanitize 255 '' a?b.'' = ''a_b''" by simp
  moreover from placeholder_only_for_space_dot_names [OF l3] a3 t3
  have "sanitize 255 ''. .'' = ''unnamed''" by simp
  ultimately show ?thesis by simp
qed

section \<open>Collision handling on concrete directories\<close>

text \<open>
  C3. The claim: every retry appends \<open>_N\<close> to the base of the original candidate, so
  that with \<open>a_b.txt\<close> and \<open>a_b_1.txt\<close> present the candidate \<open>a_b.txt\<close> resolves to
  \<open>a_b_2.txt\<close>. The loop takes the base of the name of the previous round, which
  already carries \<open>_1\<close>: the name it settles on is \<open>a_b_1_2.txt\<close>.
\<close>

theorem collision_suffixes_accumulate:
  "collision_loop [''a:b.txt'', ''a_b.txt'', ''a_b_1.txt''] ''.txt'' 1 ''a_b.txt'' = ''a_b_1_2.txt''
   \<and> fst (process_entry posix_host False 255 [''.''] ''a:b.txt''
            ([(''a:b.txt'', File), (''a_b.txt'', File), (''a_b_1.txt'', File)], initial_state))
       = [(''a_b_1_2.txt'', File), (''a_b.txt'', File), (''a_b_1.txt'', File)]"
  by code_simp

text \<open>
  C9. The suffix of the collision handling is appended after the truncation of lines
  81-85 and the length is not checked again: there are a name, a limit and a directory
  in which the truncated candidate has exactly the limit's length, collides, and the name
  the entry is renamed to is longer than the limit.
\<close>

theorem collision_suffix_exceeds_max_length:
  "\<exists>name L entries new_name.
     int (length name) \<le> L
     \<and> is_reserved name
     \<and> int (length (CHR ''_'' # name)) > L
     \<and> corrected_name L name = truncate_name L (CHR ''_'' # name)
     \<and> int (length (corrected_name L name)) = L
     \<and> corrected_name L name \<in> set (map fst entries)
     \<and> OsRename [''.'', name] [''.'', new_name]
          \<in> set (trace (snd (process_entry posix_host False L [''.''] name (entries, initial_state))))
     \<and> int (length new_name) > L"
proof (intro exI conjI)
  let ?entries = "[(''CON.txt'', File), (''_CO.txt'', File)]"
  show "int (length ''CON.txt'') \<le> 7" by simp
  show "is_reserved ''CON.txt''" by code_simp
  show "int (length (CHR ''_'' # ''CON.txt'')) > 7" by simp
  show "corrected_name 7 ''CON.txt'' = truncate_name 7 (CHR ''_'' # ''CON.txt'')" by code_simp
  show "int (length (corrected_name 7 ''CON.txt'')) = 7" by code_simp
  show "corrected_name 7 ''CON.txt'' \<in> set (map fst ?entries)" by code_simp
  show "OsRename [''.'', ''CON.txt''] [''.'', ''_CO_1.txt'']
          \<in> set (trace (snd (process_entry posix_host False 7 [''.''] ''CON.txt''
                                (?entries, initial_state))))"
    by code_simp
  show "int (length ''_CO_1.txt'') > 7" by simp
qed

section \<open>The walk, entry by entry\<close>

text \<open>
  C4. The claim: every entry whose name is longer than \<open>max_length\<close> is counted as
  skipped. The test for the script's own file name comes first (line 40) and leaves
  the loop body without counting anything, so an entry with that name is not counted
  even when it is too long.
\<close>

theorem script_named_entry_is_not_counted:
  "int (length ''ntfs-sanitizer.py'') > 10
   \<and> script_name posix_host = ''ntfs-sanitizer.py''
   \<and> skipped_count (snd (process_entry posix_host False 10 [''.''] ''ntfs-sanitizer.py''
                           ([(''ntfs-sanitizer.py'', File)], initial_state)))
     = skipped_count initial_state
   \<and> trace (snd (process_entry posix_host False 10 [''.''] ''ntfs-sanitizer.py''
                   ([(''ntfs-sanitizer.py'', File)], initial_state)))
     = []"
  by (simp add: process_entry_def posix_host_def initial_state_def)

text \<open>
  C4, amended. An entry of a directory (its name holds no separator) whose name is
  longer than \<open>max_length\<close> and is not the file name of the running script is skipped:
  the skipped counter goes up by one, a warning is printed, the directory is left as it
  is, the renamed and error counters keep their values, and the loop goes on: the names
  after it are processed in turn, the next one first, from the state the skip left. An
  entry named like the running script is passed over with nothing counted or printed,
  whatever its length, and the loop goes on after it in the same way.
\<close>

theorem too_long_entry_is_skipped:
  assumes "int (length name) > max_length" and "name \<noteq> script_name h"
    and "CHR ''/'' \<notin> set name"
  shows "process_entry h dry_run max_length root name (entries, st)
           = (entries, st\<lparr>skipped_count := skipped_count st + 1,
                             trace := trace st @ [TooLongWarning name]\<rparr>)
         \<and> change_count (snd (process_entry h dry_run max_length root name (entries, st)))
           = change_count st
         \<and> error_count (snd (process_entry h dry_run max_length root name (entries, st)))
           = error_count st
         \<and> process_names h dry_run max_length root (name # rest) (entries, st)
           = process_names h dry_run max_length root rest
               (entries, st\<lparr>skipped_count := skipped_count st + 1,
                              trace := trace st @ [TooLongWarning name]\<rparr>)
         \<and> process_names h dry_run max_length root (name # rest) (entries, st)
           = fold (process_entry h dry_run max_length root) rest
               (entries, st\<lparr>skipped_count := skipped_count st + 1,
                              trace := trace st @ [TooLongWarning name]\<rparr>)
         \<and> process_names h dry_run max_length root [name, next_name] (entries, st)
           = process_entry h dry_run max_length root next_name
               (entries, st\<lparr>skipped_count := skipped_count st + 1,
                              trace := trace st @ [TooLongWarning name]\<rparr>)
         \<and> process_entry h dry_run max_length root (script_name h) (entries, st) = (entries, st)
         \<and> process_names h dry_run max_length root (script_name h # rest) (entries, st)
           = fold (process_entry h dry_run max_length root) rest (entries, st)"
proof -
  have skip: "process_entry h dry_run max_length root name (entries, st)
           = (entries, st\<lparr>skipped_count := skipped_count st + 1,
                             trace := trace st @ [TooLongWarning name]\<rparr>)"
    using assms by (simp add: process_entry_def basename_join)
  have own: "process_entry h dry_run max_length root (script_name h) (entries, st) = (entries, st)"
    by (simp add: process_entry_def)
  show ?thesis
    unfolding process_names_def fold_simps comp_apply skip own by simp
qed

theorem too_long_entry_is_skipped_witness:
  "process_names posix_host False 10 [''.''] [''abcdefghijklmnop'', ''a?b'']
     ([(''abcdefghijklmnop'', File), (''a?b'', File)], initial_state)
   = ([(''abcdefghijklmnop'', File), (''a_b'', File)],
      \<lparr>change_count = 1, skipped_count = 1, error_count = 0,
         trace = [TooLongWarning ''abcdefghijklmnop'',
                  ChangeReport False [''.''] ''a?b'' ''a_b'' [InvalidCharacters],
                  OsRename [''.'', ''a?b''] [''.'', ''a_b'']]\<rparr>)
   \<and> process_entry posix_host False 10 [''.''] ''abcdefghijklmnop''
       ([(''abcdefghijklmnop'', File), (''a?b'', File)], initial_state)
     = ([(''abcdefghijklmnop'', File), (''a?b'', File)],
        \<lparr>change_count = 0, skipped_count = 1, error_count = 0,
           trace = [TooLongWarning ''abcdefghijklmnop'']\<rparr>)"
proof -
  let ?es = "[(''abcdefghijklmnop'', File), (''a?b'', File)]"
  let ?st = "\<lparr>change_count = 0, skipped_count = 1, error_count = 0,
               trace = [TooLongWarning ''abcdefghijklmnop'']\<rparr>"
  have l: "int (length ''abcdefghijklmnop'') > 10" by simp
  have n: "''abcdefghijklmnop'' \<noteq> script_name posix_host" by (simp add: posix_host_def)
  have s: "CHR ''/'' \<notin> set ''abcdefghijklmnop''" by simp
  have st: "initial_state\<lparr>skipped_count := skipped_count initial_state + 1,
                           trace := trace initial_state @ [TooLongWarning ''abcdefghijklmnop'']\<rparr>
            = ?st"
    by (simp add: initial_state_def)
  have nxt: "process_entry posix_host False 10 [''.''] ''a?b'' (?es, ?st)
             = ([(''abcdefghijklmnop'', File), (''a_b'', File)],
                \<lparr>change_count = 1, skipped_count = 1, error_count = 0,
                   trace = [TooLongWarning ''abcdefghijklmnop'',
                            ChangeReport False [''.''] ''a?b'' ''a_b'' [InvalidCharacters],
                            OsRename [''.'', ''a?b''] [''.'', ''a_b'']]\<rparr>)"
    by code_simp
  from too_long_entry_is_skipped [OF l n s, of False "[''.'']" ?es initial_state "[]" "''a?b''"]
  show ?thesis unfolding st nxt by simp
qed

text \<open>
  C7. When \<open>os.rename\<close> fails for an entry of a directory in a live run, the error
  counter goes up by one, the renamed counter keeps its value, the error is reported with
  the entry's name after the report of the intended change, the directory is left as it
  is, and the loop goes on: the names after it are processed in turn, the next one
  first, from the state the failure left. On a host that rejects every rename, two
  entries with forbidden characters end with two errors counted and reported.
\<close>

theorem failed_rename_is_recovered:
  assumes "name \<noteq> script_name h" and "int (length name) \<le> max_length"
    and "CHR ''/'' \<notin> set name"
    and "has_invalid name \<or> has_trailing name \<or> is_reserved name"
    and "new_name = collision_loop (map fst entries)
                      (snd (splitext (corrected_name max_length name))) 1
                      (corrected_name max_length name)"
    and "rename_fails h (root @ [name]) (root @ [new_name])"
  shows "process_entry h False max_length root name (entries, st)
           = (entries, st\<lparr>error_count := error_count st + 1,
                             trace := trace st @ [ChangeReport False root name new_name (reasons_of name),
                                                  RenameError name]\<rparr>)
         \<and> change_count (snd (process_entry h False max_length root name (entries, st)))
           = change_count st
         \<and> process_names h False max_length root (name # rest) (entries, st)
           = process_names h False max_length root rest
               (entries, st\<lparr>error_count := error_count st + 1,
                              trace := trace st @ [ChangeReport False root name new_name (reasons_of name),
                                                   RenameError name]\<rparr>)
         \<and> process_names h False max_length root (name # rest) (entries, st)
           = fold (process_entry h False max_length root) rest
               (entries, st\<lparr>error_count := error_count st + 1,
                              trace := trace st @ [ChangeReport False root name new_name (reasons_of name),
                                                   RenameError name]\<rparr>)
         \<and> process_names h False max_length root [name, next_name] (entries, st)
           = process_entry h False max_length root next_name
               (entries, st\<lparr>error_count := error_count st + 1,
                              trace := trace st @ [ChangeReport False root name new_name (reasons_of name),
                                                   RenameError name]\<rparr>)"
proof -
  have d: "new_name \<noteq> name"
    unfolding assms(5) using assms(4,2) by (intro renamed_name_differs) simp_all
  have fail: "process_entry h False max_length root name (entries, st)
           = (entries, st\<lparr>error_count := error_count st + 1,
                             trace := trace st @ [ChangeReport False root name new_name (reasons_of name),
                                                  RenameError name]\<rparr>)"
    using assms(1,2,3,4,6) d unfolding assms(5) process_entry_def
    by (simp add: Let_def basename_join ext_of_new_path)
  show ?thesis
    unfolding process_names_def fold_simps comp_apply fail by simp
qed

theorem failed_rename_is_recovered_witness:
  "process_names read_only_host False 255 [''.''] [''a?b'', ''c*d'']
     ([(''a?b'', File), (''c*d'', File)], initial_state)
   = ([(''a?b'', File), (''c*d'', File)],
      \<lparr>change_count = 0, skipped_count = 0, error_count = 2,
         trace = [ChangeReport False [''.''] ''a?b'' ''a_b'' [InvalidCharacters],
                  RenameError ''a?b'',
                  ChangeReport False [''.''] ''c*d'' ''c_d'' [InvalidCharacters],
                  RenameError ''c*d'']\<rparr>)
   \<and> process_entry read_only_host False 255 [''.''] ''a?b''
       ([(''a?b'', File), (''c*d'', File)], initial_state)
     = ([(''a?b'', File), (''c*d'', File)],
        \<lparr>change_count = 0, skipped_count = 0, error_count = 1,
           trace = [ChangeReport False [''.''] ''a?b'' ''a_b'' [InvalidCharacters],
                    RenameError ''a?b'']\<rparr>)"
proof -
  let ?es = "[(''a?b'', File), (''c*d'', File)]"
  let ?st = "\<lparr>change_count = 0, skipped_count = 0, error_count = 1,
               trace = [ChangeReport False [''.''] ''a?b'' ''a_b'' [InvalidCharacters],
                        RenameError ''a?b'']\<rparr>"
  have 1: "''a?b'' \<noteq> script_name read_only_host" by (simp add: read_only_host_def)
  have 2: "int (length ''a?b'') \<le> 255" by simp
  have s: "CHR ''/'' \<notin> set ''a?b''" by simp
  have i: "has_invalid ''a?b''" by code_simp
  then have 3: "has_invalid ''a?b'' \<or> has_trailing ''a?b'' \<or> is_reserved ''a?b''" by simp
  have 4: "''a_b'' = collision_loop (map fst ?es) (snd (splitext (corrected_name 255 ''a?b''))) 1
                       (corrected_name 255 ''a?b'')"
    by code_simp
  have 5: "rename_fails read_only_host ([''.''] @ [''a?b'']) ([''.''] @ [''a_b''])"
    by (simp add: read_only_host_def)
  have r: "reasons_of ''a?b'' = [InvalidCharacters]" by code_simp
  have st: "initial_state\<lparr>error_count := error_count initial_state + 1,
              trace := trace initial_state @
                [ChangeReport False [''.''] ''a?b'' ''a_b'' (reasons_of ''a?b''), RenameError ''a?b'']\<rparr>
            = ?st"
    by (simp add: initial_state_def r)
  have nxt: "process_entry read_only_host False 255 [''.''] ''c*d'' (?es, ?st)
             = (?es,
                \<lparr>change_count = 0, skipped_count = 0, error_count = 2,
                   trace = [ChangeReport False [''.''] ''a?b'' ''a_b'' [InvalidCharacters],
                            RenameError ''a?b'',
                            ChangeReport False [''.''] ''c*d'' ''c_d'' [InvalidCharacters],
                            RenameError ''c*d'']\<rparr>)"
    by code_simp
  from failed_rename_is_recovered [OF 1 2 s 3 4 5, of initial_state "[]" "''c*d''"]
  show ?thesis unfolding st nxt by simp
qed

section \<open>Dry run and live run\<close>

text \<open>
  C6. The claim: a dry run changes nothing and reports the same reasons and the same
  renamed, skipped and error counts as the live run on the same tree. A dry run never
  calls \<open>os.rename\<close>, so it cannot see a rename fail: on a host that rejects the rename
  it counts the entry as renamed where the live run counts an error.
\<close>

theorem dry_run_counts_differ_when_rename_fails:
  "sanitize_ntfs_names read_only_host [''.''] True 255 (Some (Dir [(''a?b'', File)]))
     = Some (Dir [(''a?b'', File)],
             \<lparr>change_count = 1, skipped_count = 0, error_count = 0,
                trace = [ChangeReport True [''.''] ''a?b'' ''a_b'' [InvalidCharacters]]\<rparr>)
   \<and> sanitize_ntfs_names read_only_host [''.''] False 255 (Some (Dir [(''a?b'', File)]))
     = Some (Dir [(''a?b'', File)],
             \<lparr>change_count = 0, skipped_count = 0, error_count = 1,
                trace = [ChangeReport False [''.''] ''a?b'' ''a_b'' [InvalidCharacters],
                         RenameError ''a?b'']\<rparr>)"
  by code_simp

text \<open>
  C6, amended. A dry run returns the tree it was given and calls \<open>os.rename\<close> not
  once. It reports the same reasons for
  the same entries and warns about the same names as the live run on that tree, and
  counts the same entries as skipped. It counts no error, and its renamed count is the
  live run's renamed count plus the errors the live run counted; when no rename fails on
  the host, the renamed and error counts of the two runs are equal.
\<close>

theorem dry_run_agrees_up_to_rename_failures:
  "fst (walk h True L root t st) = t
   \<and> renames_performed (trace (snd (walk h True L root t st))) = renames_performed (trace st)
   \<and> per_entry_reasons (trace (snd (walk h True L root t st)))
     = per_entry_reasons (trace (snd (walk h False L root t st)))
   \<and> too_long_warnings (trace (snd (walk h True L root t st)))
     = too_long_warnings (trace (snd (walk h False L root t st)))
   \<and> skipped_count (snd (walk h True L root t st)) = skipped_count (snd (walk h False L root t st))
   \<and> error_count (snd (walk h True L root t st)) = error_count st
   \<and> change_count (snd (walk h True L root t st)) + error_count st
     = change_count (snd (walk h False L root t st)) + error_count (snd (walk h False L root t st))
   \<and> ((\<forall>old new. \<not> rename_fails h old new) \<longrightarrow>
        change_count (snd (walk h True L root t st)) = change_count (snd (walk h False L root t st))
        \<and> error_count (snd (walk h True L root t st)) = error_count (snd (walk h False L root t st)))"
  using walk_agree [of h st L root t] walk_dry_tree [of h L root t st]
  by (auto simp: agree_def)

theorem dry_run_agrees_up_to_rename_failures_witness:
  "fst (walk posix_host True 255 [''.''] (Dir [(''a:b'', File), (''a?b'', File)]) initial_state)
     = Dir [(''a:b'', File), (''a?b'', File)]
   \<and> change_count (snd (walk posix_host True 255 [''.'']
                          (Dir [(''a:b'', File), (''a?b'', File)]) initial_state))
     = change_count (snd (walk posix_host False 255 [''.'']
                            (Dir [(''a:b'', File), (''a?b'', File)]) initial_state))
   \<and> error_count (snd (walk posix_host True 255 [''.'']
                         (Dir [(''a:b'', File), (''a?b'', File)]) initial_state))
     = error_count (snd (walk posix_host False 255 [''.'']
                           (Dir [(''a:b'', File), (''a?b'', File)]) initial_state))"
proof -
  have "\<forall>old new. \<not> rename_fails posix_host old new" by (simp add: posix_host_def)
  with dry_run_agrees_up_to_rename_failures
         [of posix_host 255 "[''.'']" "Dir [(''a:b'', File), (''a?b'', File)]" initial_state]
  show ?thesis by simp
qed

section \<open>The order of the walk\<close>



end
